theory Spec2Isabelle
  imports Main "HOL-Library.Word" "HOL-Library.AList"
begin

section \<open>Characters, strings and values\<close>

text \<open>
  The program is JavaScript (\<^verbatim>\<open>src/src/App.tsx\<close>). A JavaScript string is a sequence
  of UTF-16 code units, and \<^verbatim>\<open>this.text[i]\<close> is the one-unit string at index \<open>i\<close>, so a
  character is a 16-bit word and a string a list of them. \<open>js\<close> turns an ASCII literal
  into such a string.
\<close>

type_synonym cu = "16 word"
type_synonym jsstring = "cu list"

definition js :: "string \<Rightarrow> jsstring" where
  "js s = map of_char s"

text \<open>
  The regular expressions of the tokenizer, each tested against one character.
  \<^verbatim>\<open>/\s/\<close> is ECMAScript's white space and line terminators.
\<close>

definition is_space :: "cu \<Rightarrow> bool" where
  "is_space c =
     (c \<in> set [0x09, 0x0A, 0x0B, 0x0C, 0x0D, 0x20, 0xA0, 0x1680,
                0x2028, 0x2029, 0x202F, 0x205F, 0x3000, 0xFEFF]
      \<or> (0x2000 \<le> c \<and> c \<le> 0x200A))"

definition is_digit :: "cu \<Rightarrow> bool" where
  "is_digit c = (0x30 \<le> c \<and> c \<le> 0x39)"

definition is_digit_or_dot :: "cu \<Rightarrow> bool" where
  "is_digit_or_dot c = (is_digit c \<or> c = 0x2E)"

definition is_letter :: "cu \<Rightarrow> bool" where
  "is_letter c = ((0x61 \<le> c \<and> c \<le> 0x7A) \<or> (0x41 \<le> c \<and> c \<le> 0x5A))"

definition is_ident_start :: "cu \<Rightarrow> bool" where
  "is_ident_start c = (is_letter c \<or> c = 0x5F)"

definition is_ident_char :: "cu \<Rightarrow> bool" where
  "is_ident_char c = (is_letter c \<or> is_digit c \<or> c = 0x5F)"

definition is_punctuation :: "cu \<Rightarrow> bool" where
  "is_punctuation c = (c \<in> set (js ''{}();:,.''))"

definition is_operator :: "cu \<Rightarrow> bool" where
  "is_operator c = (c \<in> set (js ''=<>!+-*/''))"

definition newline :: cu where "newline = 0x0A"
definition backslash :: cu where "backslash = 0x5C"
definition slash :: cu where "slash = 0x2F"
definition star :: cu where "star = 0x2A"
definition dquote :: cu where "dquote = 0x22"
definition squote :: cu where "squote = 0x27"

datatype TokenType =
  KEYWORD | IDENTIFIER | STRING | NUMBER | OPERATOR | PUNCTUATION | COMMENT | WHITESPACE | EOF

definition KEYWORDS :: "jsstring list" where
  "KEYWORDS = map js
     [''package'', ''part'', ''attribute'', ''port'', ''connection'', ''interface'',
      ''block'', ''requirement'', ''constraint'', ''activity'', ''state'', ''transition'',
      ''use'', ''case'', ''actor'', ''subject'', ''stakeholder'', ''concern'',
      ''view'', ''viewpoint'', ''rendering'', ''expose'', ''import'', ''private'',
      ''protected'', ''public'', ''abstract'', ''readonly'', ''derived'', ''end'',
      ''redefines'', ''specializes'', ''conjugates'']"

text \<open>
  A token's \<^verbatim>\<open>value\<close> is a string, a number or \<^verbatim>\<open>null\<close>. The number of a NUMBER
  token is \<^verbatim>\<open>parseFloat(s)\<close> of the digits and dots \<open>s\<close> that were read; floating point
  is not modelled, so \<open>Num\<close> keeps \<open>s\<close>. The parser only ever compares a token's value
  with a string literal by \<^verbatim>\<open>===\<close>, which no number equals.
\<close>

datatype jsvalue = Str jsstring | Num jsstring | Null

text \<open>
  The token object \<^verbatim>\<open>{ type, value, line, column }\<close>; the fields carry the prefix
  \<open>tk_\<close>, and those of the tokenizer the prefix \<open>t_\<close>.
\<close>

record token =
  tk_type :: TokenType
  tk_value :: jsvalue
  tk_line :: nat
  tk_column :: nat

section \<open>The tokenizer\<close>

record tokenizer =
  t_text :: jsstring
  t_position :: nat
  t_line :: nat
  t_column :: nat

definition SysMLTokenizer :: "jsstring \<Rightarrow> tokenizer" where
  "SysMLTokenizer text = \<lparr>t_text = text, t_position = 0, t_line = 1, t_column = 1\<rparr>"

text \<open>
  \<^verbatim>\<open>current()\<close> and \<^verbatim>\<open>peek()\<close> return \<^verbatim>\<open>null\<close> past the end: \<open>None\<close>. A one-unit
  string is truthy whatever the unit, so \<^verbatim>\<open>this.current()\<close> as a condition is
  \<open>current t \<noteq> None\<close>.
\<close>

definition current :: "tokenizer \<Rightarrow> cu option" where
  "current t =
     (if t_position t < length (t_text t) then Some (t_text t ! t_position t) else None)"

definition peek :: "tokenizer \<Rightarrow> nat \<Rightarrow> cu option" where
  "peek t offset =
     (let pos = t_position t + offset
      in if pos < length (t_text t) then Some (t_text t ! pos) else None)"

definition advance :: "tokenizer \<Rightarrow> tokenizer" where
  "advance t =
     (if current t = Some newline
      then t\<lparr>t_position := t_position t + 1, t_line := t_line t + 1, t_column := 1\<rparr>
      else t\<lparr>t_position := t_position t + 1, t_column := t_column t + 1\<rparr>)"

lemma current_Some_lt: "current t = Some c \<Longrightarrow> t_position t < length (t_text t)"
  by (simp add: current_def split: if_splits)

lemma advance_text: "t_text (advance t) = t_text t"
  by (simp add: advance_def)

lemma advance_position: "t_position (advance t) = Suc (t_position t)"
  by (simp add: advance_def)

function skipWhitespace :: "tokenizer \<Rightarrow> tokenizer" where
  "skipWhitespace t =
     (case current t of
        None \<Rightarrow> t
      | Some c \<Rightarrow> if is_space c then skipWhitespace (advance t) else t)"
  by pat_completeness auto
termination
  by (relation "measure (\<lambda>t. length (t_text t) - t_position t)")
     (auto simp: advance_text advance_position dest: current_Some_lt)

text \<open>
  \<^verbatim>\<open>readString\<close>: \<open>quote\<close> is \<^verbatim>\<open>this.current()\<close> on entry, the loop runs while there is
  a character other than \<open>quote\<close>.
\<close>

function readString_loop :: "cu option \<Rightarrow> tokenizer \<Rightarrow> jsstring \<Rightarrow> jsstring \<times> tokenizer" where
  "readString_loop quote t v =
     (case current t of
        None \<Rightarrow> (v, t)
      | Some c \<Rightarrow>
          if Some c = quote then (v, t)
          else if c = backslash then
            (let t1 = advance t
             in case current t1 of
                  Some d \<Rightarrow> readString_loop quote (advance t1) (v @ [d])
                | None \<Rightarrow> readString_loop quote t1 v)
          else readString_loop quote (advance t) (v @ [c]))"
  by pat_completeness auto
termination
  by (relation "measure (\<lambda>(q, t, v). length (t_text t) - t_position t)")
     (auto simp: advance_text advance_position dest: current_Some_lt)

definition readString :: "tokenizer \<Rightarrow> jsstring \<times> tokenizer" where
  "readString t =
     (let quote = current t;
          t1 = advance t;
          (v, t2) = readString_loop quote t1 [];
          t3 = (if current t2 = quote then advance t2 else t2)
      in (v, t3))"

function readNumber_loop :: "tokenizer \<Rightarrow> jsstring \<Rightarrow> jsstring \<times> tokenizer" where
  "readNumber_loop t v =
     (case current t of
        None \<Rightarrow> (v, t)
      | Some c \<Rightarrow> if is_digit_or_dot c then readNumber_loop (advance t) (v @ [c]) else (v, t))"
  by pat_completeness auto
termination
  by (relation "measure (\<lambda>(t, v). length (t_text t) - t_position t)")
     (auto simp: advance_text advance_position dest: current_Some_lt)

definition readNumber :: "tokenizer \<Rightarrow> jsvalue \<times> tokenizer" where
  "readNumber t = (let (v, t1) = readNumber_loop t [] in (Num v, t1))"

function readIdentifier_loop :: "tokenizer \<Rightarrow> jsstring \<Rightarrow> jsstring \<times> tokenizer" where
  "readIdentifier_loop t v =
     (case current t of
        None \<Rightarrow> (v, t)
      | Some c \<Rightarrow> if is_ident_char c then readIdentifier_loop (advance t) (v @ [c]) else (v, t))"
  by pat_completeness auto
termination
  by (relation "measure (\<lambda>(t, v). length (t_text t) - t_position t)")
     (auto simp: advance_text advance_position dest: current_Some_lt)

definition readIdentifier :: "tokenizer \<Rightarrow> jsstring \<times> tokenizer" where
  "readIdentifier t = readIdentifier_loop t []"

function lineComment_loop :: "tokenizer \<Rightarrow> jsstring \<Rightarrow> jsstring \<times> tokenizer" where
  "lineComment_loop t v =
     (case current t of
        None \<Rightarrow> (v, t)
      | Some c \<Rightarrow> if c = newline then (v, t) else lineComment_loop (advance t) (v @ [c]))"
  by pat_completeness auto
termination
  by (relation "measure (\<lambda>(t, v). length (t_text t) - t_position t)")
     (auto simp: advance_text advance_position dest: current_Some_lt)

function blockComment_loop :: "tokenizer \<Rightarrow> jsstring \<Rightarrow> jsstring \<times> tokenizer" where
  "blockComment_loop t v =
     (case current t of
        None \<Rightarrow> (v, t)
      | Some c \<Rightarrow>
          if c = star \<and> peek t 1 = Some slash then (v, t)
          else blockComment_loop (advance t) (v @ [c]))"
  by pat_completeness auto
termination
  by (relation "measure (\<lambda>(t, v). length (t_text t) - t_position t)")
     (auto simp: advance_text advance_position dest: current_Some_lt)

definition readComment :: "tokenizer \<Rightarrow> jsstring \<times> tokenizer" where
  "readComment t =
     (if current t = Some slash \<and> peek t 1 = Some slash then lineComment_loop t []
      else if current t = Some slash \<and> peek t 1 = Some star then
        (let t1 = advance (advance t);
             (v, t2) = blockComment_loop t1 [];
             t3 = (if current t2 = Some star then advance (advance t2) else t2)
         in (v, t3))
      else ([], t))"

definition nextToken :: "tokenizer \<Rightarrow> token \<times> tokenizer" where
  "nextToken t0 =
     (let t = skipWhitespace t0
      in case current t of
           None \<Rightarrow>
             (\<lparr>tk_type = EOF, tk_value = Null, tk_line = t_line t, tk_column = t_column t\<rparr>, t)
         | Some char \<Rightarrow>
             (let line = t_line t; column = t_column t
              in if char = slash \<and> (peek t 1 = Some slash \<or> peek t 1 = Some star) then
                   (let (v, t') = readComment t
                    in (\<lparr>tk_type = COMMENT, tk_value = Str v, tk_line = line, tk_column = column\<rparr>, t'))
                 else if char = dquote \<or> char = squote then
                   (let (v, t') = readString t
                    in (\<lparr>tk_type = STRING, tk_value = Str v, tk_line = line, tk_column = column\<rparr>, t'))
                 else if is_digit char then
                   (let (v, t') = readNumber t
                    in (\<lparr>tk_type = NUMBER, tk_value = v, tk_line = line, tk_column = column\<rparr>, t'))
                 else if is_ident_start char then
                   (let (v, t') = readIdentifier t;
                        type = (if v \<in> set KEYWORDS then KEYWORD else IDENTIFIER)
                    in (\<lparr>tk_type = type, tk_value = Str v, tk_line = line, tk_column = column\<rparr>, t'))
                 else if is_punctuation char then
                   (\<lparr>tk_type = PUNCTUATION, tk_value = Str [char], tk_line = line, tk_column = column\<rparr>,
                    advance t)
                 else if is_operator char then
                   (\<lparr>tk_type = OPERATOR, tk_value = Str [char], tk_line = line, tk_column = column\<rparr>,
                    advance t)
                 else
                   (\<lparr>tk_type = IDENTIFIER, tk_value = Str [char], tk_line = line, tk_column = column\<rparr>,
                    advance t)))"


subsection \<open>One iteration of each loop\<close>

text \<open>
  The loops are unfolded one iteration at a time through the following equations
  rather than through their defining equations.
\<close>

declare skipWhitespace.simps [simp del]
declare readString_loop.simps [simp del]
declare readNumber_loop.simps [simp del]
declare readIdentifier_loop.simps [simp del]
declare lineComment_loop.simps [simp del]
declare blockComment_loop.simps [simp del]

lemma skipWhitespace_end: "current t = None \<Longrightarrow> skipWhitespace t = t"
  by (subst skipWhitespace.simps) simp

lemma skipWhitespace_stop:
  "current t = Some c \<Longrightarrow> \<not> is_space c \<Longrightarrow> skipWhitespace t = t"
  by (subst skipWhitespace.simps) simp

lemma skipWhitespace_skip:
  "current t = Some c \<Longrightarrow> is_space c \<Longrightarrow> skipWhitespace t = skipWhitespace (advance t)"
  by (subst skipWhitespace.simps) simp

lemma readString_loop_end: "current t = None \<Longrightarrow> readString_loop q t v = (v, t)"
  by (subst readString_loop.simps) simp

lemma readString_loop_quote: "current t = q \<Longrightarrow> readString_loop q t v = (v, t)"
  by (subst readString_loop.simps) (simp split: option.splits)

lemma readString_loop_plain:
  "current t = Some c \<Longrightarrow> Some c \<noteq> q \<Longrightarrow> c \<noteq> backslash \<Longrightarrow>
   readString_loop q t v = readString_loop q (advance t) (v @ [c])"
  by (subst readString_loop.simps) simp

lemma readString_loop_escape:
  "current t = Some backslash \<Longrightarrow> Some backslash \<noteq> q \<Longrightarrow> current (advance t) = Some d \<Longrightarrow>
   readString_loop q t v = readString_loop q (advance (advance t)) (v @ [d])"
  by (subst readString_loop.simps) simp

lemma readString_loop_escape_end:
  "current t = Some backslash \<Longrightarrow> Some backslash \<noteq> q \<Longrightarrow> current (advance t) = None \<Longrightarrow>
   readString_loop q t v = (v, advance t)"
  by (subst readString_loop.simps) (simp add: readString_loop_end)

lemma readNumber_loop_end: "current t = None \<Longrightarrow> readNumber_loop t v = (v, t)"
  by (subst readNumber_loop.simps) simp

lemma readNumber_loop_stop:
  "current t = Some c \<Longrightarrow> \<not> is_digit_or_dot c \<Longrightarrow> readNumber_loop t v = (v, t)"
  by (subst readNumber_loop.simps) simp

lemma readNumber_loop_step:
  "current t = Some c \<Longrightarrow> is_digit_or_dot c \<Longrightarrow>
   readNumber_loop t v = readNumber_loop (advance t) (v @ [c])"
  by (subst readNumber_loop.simps) simp

lemma readIdentifier_loop_end: "current t = None \<Longrightarrow> readIdentifier_loop t v = (v, t)"
  by (subst readIdentifier_loop.simps) simp

lemma readIdentifier_loop_stop:
  "current t = Some c \<Longrightarrow> \<not> is_ident_char c \<Longrightarrow> readIdentifier_loop t v = (v, t)"
  by (subst readIdentifier_loop.simps) simp

lemma readIdentifier_loop_step:
  "current t = Some c \<Longrightarrow> is_ident_char c \<Longrightarrow>
   readIdentifier_loop t v = readIdentifier_loop (advance t) (v @ [c])"
  by (subst readIdentifier_loop.simps) simp

lemma lineComment_loop_end: "current t = None \<Longrightarrow> lineComment_loop t v = (v, t)"
  by (subst lineComment_loop.simps) simp

lemma lineComment_loop_stop: "current t = Some newline \<Longrightarrow> lineComment_loop t v = (v, t)"
  by (subst lineComment_loop.simps) simp

lemma lineComment_loop_step:
  "current t = Some c \<Longrightarrow> c \<noteq> newline \<Longrightarrow>
   lineComment_loop t v = lineComment_loop (advance t) (v @ [c])"
  by (subst lineComment_loop.simps) simp

lemma blockComment_loop_end: "current t = None \<Longrightarrow> blockComment_loop t v = (v, t)"
  by (subst blockComment_loop.simps) simp

lemma blockComment_loop_stop:
  "current t = Some star \<Longrightarrow> peek t 1 = Some slash \<Longrightarrow> blockComment_loop t v = (v, t)"
  by (subst blockComment_loop.simps) simp

lemma blockComment_loop_step:
  "current t = Some c \<Longrightarrow> c \<noteq> star \<or> peek t 1 \<noteq> Some slash \<Longrightarrow>
   blockComment_loop t v = blockComment_loop (advance t) (v @ [c])"
  by (subst blockComment_loop.simps) auto

subsection \<open>The cursor only moves forward, inside the text\<close>

text \<open>
  \<open>advanced t t'\<close>: the state \<open>t'\<close> is \<open>t\<close> after some calls of \<^verbatim>\<open>advance()\<close>, none of
  them past the end of the text. Every reading routine leaves such a state.
\<close>

definition advanced :: "tokenizer \<Rightarrow> tokenizer \<Rightarrow> bool" where
  "advanced t t' =
     (\<exists>k. t' = (advance ^^ k) t \<and> (k = 0 \<or> t_position t + k \<le> length (t_text t)))"

lemma funpow_advance_text: "t_text ((advance ^^ k) t) = t_text t"
  by (induction k) (simp_all add: advance_text)

lemma funpow_advance_position: "t_position ((advance ^^ k) t) = t_position t + k"
  by (induction k) (simp_all add: advance_position)

lemma advanced_refl: "advanced t t"
  unfolding advanced_def by (rule exI [of _ 0]) simp

lemma advanced_text: "advanced t t' \<Longrightarrow> t_text t' = t_text t"
  by (auto simp: advanced_def funpow_advance_text)

lemma advanced_position: "advanced t t' \<Longrightarrow> t_position t \<le> t_position t'"
  by (auto simp: advanced_def funpow_advance_position)

lemma advanced_bound:
  "advanced t t' \<Longrightarrow> t_position t \<le> length (t_text t) \<Longrightarrow> t_position t' \<le> length (t_text t)"
  by (auto simp: advanced_def funpow_advance_position)

lemma advanced_trans:
  assumes "advanced t t'" and "advanced t' t''"
  shows "advanced t t''"
proof -
  from assms(1) obtain j where
    j: "t' = (advance ^^ j) t" "j = 0 \<or> t_position t + j \<le> length (t_text t)"
    by (auto simp: advanced_def)
  from assms(2) obtain k where
    k: "t'' = (advance ^^ k) t'" "k = 0 \<or> t_position t' + k \<le> length (t_text t')"
    by (auto simp: advanced_def)
  have "t'' = (advance ^^ (k + j)) t"
    using j(1) k(1) by (simp add: funpow_add)
  moreover have "k + j = 0 \<or> t_position t + (k + j) \<le> length (t_text t)"
    using j k(2) by (auto simp: funpow_advance_text funpow_advance_position)
  ultimately show ?thesis
    unfolding advanced_def by blast
qed

lemma advanced_advance:
  assumes "current t = Some c"
  shows "advanced t (advance t)"
proof -
  have "advance t = (advance ^^ 1) t" and "t_position t + 1 \<le> length (t_text t)"
    using current_Some_lt [OF assms] by simp_all
  then show ?thesis
    unfolding advanced_def by blast
qed

lemma advanced_step:
  "current t = Some c \<Longrightarrow> advanced (advance t) t' \<Longrightarrow> advanced t t'"
  by (blast intro: advanced_trans advanced_advance)

lemma advanced_step_lt:
  assumes "current t = Some c" and "advanced (advance t) t'"
  shows "t_position t < t_position t'"
  using advanced_position [OF assms(2)] by (simp add: advance_position)

lemma skipWhitespace_advanced: "advanced t (skipWhitespace t)"
proof (induction t rule: skipWhitespace.induct)
  case (1 t)
  show ?case
  proof (cases "current t")
    case None
    then show ?thesis by (simp add: skipWhitespace_end advanced_refl)
  next
    case (Some c)
    with "1" show ?thesis
      by (cases "is_space c")
         (auto simp: skipWhitespace_stop skipWhitespace_skip advanced_refl intro: advanced_step)
  qed
qed

lemma skipWhitespace_current:
  "current (skipWhitespace t) = Some c \<Longrightarrow> \<not> is_space c"
proof (induction t rule: skipWhitespace.induct)
  case (1 t)
  show ?case
  proof (cases "current t")
    case None
    with "1.prems" show ?thesis by (simp add: skipWhitespace_end)
  next
    case (Some d)
    with "1" show ?thesis
      by (cases "is_space d") (auto simp: skipWhitespace_stop skipWhitespace_skip)
  qed
qed

lemma readString_loop_advanced: "advanced t (snd (readString_loop q t v))"
proof (induction q t v rule: readString_loop.induct)
  case (1 quote t v)
  show ?case
  proof (cases "current t")
    case None
    then show ?thesis by (simp add: readString_loop_end advanced_refl)
  next
    case (Some c)
    note c = this
    show ?thesis
    proof (cases "Some c = quote")
      case True
      with c show ?thesis by (simp add: readString_loop_quote advanced_refl)
    next
      case nq: False
      show ?thesis
      proof (cases "c = backslash")
        case False
        with c nq "1.IH"(3) show ?thesis
          by (auto simp: readString_loop_plain intro: advanced_step)
      next
        case True
        show ?thesis
        proof (cases "current (advance t)")
          case None
          with c nq True show ?thesis
            by (auto simp: readString_loop_escape_end intro: advanced_advance)
        next
          case (Some d)
          with c nq True "1.IH"(2)
          have "advanced (advance (advance t)) (snd (readString_loop quote t v))"
            by (simp add: readString_loop_escape)
          with Some c show ?thesis
            by (blast intro: advanced_step)
        qed
      qed
    qed
  qed
qed

lemma readString_advanced:
  assumes "current t = Some c" and "readString t = (v, t')"
  shows "advanced (advance t) t'"
proof -
  obtain w t2 where l: "readString_loop (current t) (advance t) [] = (w, t2)"
    by (cases "readString_loop (current t) (advance t) []")
  have a: "advanced (advance t) t2"
    using readString_loop_advanced [of "advance t" "current t" "[]"] l by simp
  show ?thesis
  proof (cases "current t2 = current t")
    case True
    then have "current t2 = Some c" using assms(1) by simp
    then have "advanced t2 (advance t2)" by (rule advanced_advance)
    moreover have "t' = advance t2"
      using assms(2) l True by (simp add: readString_def Let_def)
    ultimately show ?thesis using a by (blast intro: advanced_trans)
  next
    case False
    then have "t' = t2"
      using assms(2) l by (simp add: readString_def Let_def)
    with a show ?thesis by simp
  qed
qed

lemma readNumber_loop_advanced: "advanced t (snd (readNumber_loop t v))"
proof (induction t v rule: readNumber_loop.induct)
  case (1 t v)
  show ?case
  proof (cases "current t")
    case None
    then show ?thesis by (simp add: readNumber_loop_end advanced_refl)
  next
    case (Some c)
    with "1" show ?thesis
      by (cases "is_digit_or_dot c")
         (auto simp: readNumber_loop_stop readNumber_loop_step advanced_refl intro: advanced_step)
  qed
qed

lemma readIdentifier_loop_advanced: "advanced t (snd (readIdentifier_loop t v))"
proof (induction t v rule: readIdentifier_loop.induct)
  case (1 t v)
  show ?case
  proof (cases "current t")
    case None
    then show ?thesis by (simp add: readIdentifier_loop_end advanced_refl)
  next
    case (Some c)
    with "1" show ?thesis
      by (cases "is_ident_char c")
         (auto simp: readIdentifier_loop_stop readIdentifier_loop_step advanced_refl
               intro: advanced_step)
  qed
qed

lemma lineComment_loop_advanced: "advanced t (snd (lineComment_loop t v))"
proof (induction t v rule: lineComment_loop.induct)
  case (1 t v)
  show ?case
  proof (cases "current t")
    case None
    then show ?thesis by (simp add: lineComment_loop_end advanced_refl)
  next
    case (Some c)
    with "1" show ?thesis
      by (cases "c = newline")
         (auto simp: lineComment_loop_stop lineComment_loop_step advanced_refl
               intro: advanced_step)
  qed
qed

lemma blockComment_loop_advanced: "advanced t (snd (blockComment_loop t v))"
proof (induction t v rule: blockComment_loop.induct)
  case (1 t v)
  show ?case
  proof (cases "current t")
    case None
    then show ?thesis by (simp add: blockComment_loop_end advanced_refl)
  next
    case (Some c)
    with "1" show ?thesis
      by (cases "c = star \<and> peek t 1 = Some slash")
         (auto simp: blockComment_loop_stop blockComment_loop_step advanced_refl
               intro: advanced_step)
  qed
qed

lemma peek_1: "peek t (Suc 0) = current (advance t)"
  by (simp add: peek_def current_def advance_text advance_position)

lemma blockComment_loop_exit:
  "blockComment_loop t v = (w, t') \<Longrightarrow>
   current t' = None \<or> (current t' = Some star \<and> peek t' 1 = Some slash)"
proof (induction t v rule: blockComment_loop.induct)
  case (1 t v)
  show ?case
  proof (cases "current t")
    case None
    with "1.prems" show ?thesis by (simp add: blockComment_loop_end)
  next
    case (Some c)
    with "1" show ?thesis
      by (cases "c = star \<and> peek t 1 = Some slash")
         (auto simp: blockComment_loop_stop blockComment_loop_step)
  qed
qed

lemma readComment_advanced:
  assumes c: "current t = Some slash"
    and p: "peek t 1 = Some slash \<or> peek t 1 = Some star"
    and r: "readComment t = (v, t')"
  shows "advanced (advance t) t'"
proof (cases "peek t 1 = Some slash")
  case True
  have "slash \<noteq> newline" by (simp add: slash_def newline_def)
  with c have "lineComment_loop t [] = lineComment_loop (advance t) ([] @ [slash])"
    by (rule lineComment_loop_step)
  with c True r have "t' = snd (lineComment_loop (advance t) ([] @ [slash]))"
    by (simp add: readComment_def)
  then show ?thesis by (simp add: lineComment_loop_advanced)
next
  case False
  with p have st: "peek t 1 = Some star" by simp
  have ne: "Some star \<noteq> Some slash" by (simp add: slash_def star_def)
  obtain w t2 where l: "blockComment_loop (advance (advance t)) [] = (w, t2)"
    by (cases "blockComment_loop (advance (advance t)) []")
  have a1: "advanced (advance t) (advance (advance t))"
    using st by (auto simp: peek_1 intro: advanced_advance)
  have a2: "advanced (advance (advance t)) t2"
    using blockComment_loop_advanced [of "advance (advance t)" "[]"] l by simp
  have t': "t' = (if current t2 = Some star then advance (advance t2) else t2)"
    using c st ne r l by (simp add: readComment_def Let_def)
  show ?thesis
  proof (cases "current t2 = Some star")
    case False
    with t' a1 a2 show ?thesis by (auto intro: advanced_trans)
  next
    case True
    with blockComment_loop_exit [OF l] have "current (advance t2) = Some slash"
      by (simp add: peek_1)
    with True have "advanced t2 (advance (advance t2))"
      by (blast intro: advanced_advance advanced_trans)
    with a1 a2 t' True show ?thesis by (auto intro: advanced_trans)
  qed
qed

text \<open>
  What one call of \<^verbatim>\<open>nextToken()\<close> does to the cursor: with \<open>t1\<close> the state after the
  white space, the token carries the line and column of \<open>t1\<close>; at the end of the text
  it is the EOF token and nothing more is consumed; otherwise it is not EOF and the
  character under the cursor of \<open>t1\<close> has been consumed.
\<close>

lemma nextToken_cursor:
  assumes "nextToken t = (tok, t')"
  shows "tk_line tok = t_line (skipWhitespace t) \<and> tk_column tok = t_column (skipWhitespace t) \<and>
         (case current (skipWhitespace t) of
            None \<Rightarrow> tk_type tok = EOF \<and> tk_value tok = Null \<and> t' = skipWhitespace t
          | Some c \<Rightarrow> tk_type tok \<noteq> EOF \<and> advanced (advance (skipWhitespace t)) t')"
proof (cases "current (skipWhitespace t)")
  case None
  with assms show ?thesis by (auto simp: nextToken_def Let_def)
next
  case (Some c)
  define t1 where "t1 = skipWhitespace t"
  have c: "current t1 = Some c" using Some by (simp add: t1_def)
  have adv: "advanced (advance t1) (advance t1)" by (rule advanced_refl)
  consider (comment) "c = slash" "peek t1 1 = Some slash \<or> peek t1 1 = Some star"
    | (string) "\<not> (c = slash \<and> (peek t1 1 = Some slash \<or> peek t1 1 = Some star))"
        "c = dquote \<or> c = squote"
    | (number) "\<not> (c = slash \<and> (peek t1 1 = Some slash \<or> peek t1 1 = Some star))"
        "\<not> (c = dquote \<or> c = squote)" "is_digit c"
    | (ident) "\<not> (c = slash \<and> (peek t1 1 = Some slash \<or> peek t1 1 = Some star))"
        "\<not> (c = dquote \<or> c = squote)" "\<not> is_digit c" "is_ident_start c"
    | (single) "\<not> (c = slash \<and> (peek t1 1 = Some slash \<or> peek t1 1 = Some star))"
        "\<not> (c = dquote \<or> c = squote)" "\<not> is_digit c" "\<not> is_ident_start c"
    by blast
  then have "tk_line tok = t_line t1 \<and> tk_column tok = t_column t1 \<and>
             tk_type tok \<noteq> EOF \<and> advanced (advance t1) t'"
  proof cases
    case comment
    obtain v t2 where r: "readComment t1 = (v, t2)" by (cases "readComment t1")
    from c comment(1) have "current t1 = Some slash" by simp
    from readComment_advanced [OF this comment(2) r] have "advanced (advance t1) t2" .
    moreover have "tok = \<lparr>tk_type = COMMENT, tk_value = Str v, tk_line = t_line t1,
                           tk_column = t_column t1\<rparr> \<and> t' = t2"
      using assms c comment r unfolding nextToken_def Let_def t1_def [symmetric] by auto
    ultimately show ?thesis by auto
  next
    case string
    obtain v t2 where r: "readString t1 = (v, t2)" by (cases "readString t1")
    from readString_advanced [OF c r] have "advanced (advance t1) t2" .
    moreover have "tok = \<lparr>tk_type = STRING, tk_value = Str v, tk_line = t_line t1,
                           tk_column = t_column t1\<rparr> \<and> t' = t2"
      using assms c string r unfolding nextToken_def Let_def t1_def [symmetric] by auto
    ultimately show ?thesis by auto
  next
    case number
    obtain v t2 where r: "readNumber_loop t1 [] = (v, t2)" by (cases "readNumber_loop t1 []")
    have "is_digit_or_dot c" using number(3) by (simp add: is_digit_or_dot_def)
    with c have "readNumber_loop t1 [] = readNumber_loop (advance t1) ([] @ [c])"
      by (rule readNumber_loop_step)
    with r have "t2 = snd (readNumber_loop (advance t1) ([] @ [c]))" by simp
    then have "advanced (advance t1) t2" by (simp add: readNumber_loop_advanced)
    moreover have "tok = \<lparr>tk_type = NUMBER, tk_value = Num v, tk_line = t_line t1,
                           tk_column = t_column t1\<rparr> \<and> t' = t2"
      using assms c number r unfolding nextToken_def Let_def t1_def [symmetric]
      by (auto simp: readNumber_def)
    ultimately show ?thesis by auto
  next
    case ident
    obtain v t2 where r: "readIdentifier_loop t1 [] = (v, t2)"
      by (cases "readIdentifier_loop t1 []")
    have "is_ident_char c"
      using ident(4) by (auto simp: is_ident_char_def is_ident_start_def)
    with c have "readIdentifier_loop t1 [] = readIdentifier_loop (advance t1) ([] @ [c])"
      by (rule readIdentifier_loop_step)
    with r have "t2 = snd (readIdentifier_loop (advance t1) ([] @ [c]))" by simp
    then have "advanced (advance t1) t2" by (simp add: readIdentifier_loop_advanced)
    moreover have "tok = \<lparr>tk_type = (if v \<in> set KEYWORDS then KEYWORD else IDENTIFIER),
                           tk_value = Str v, tk_line = t_line t1,
                           tk_column = t_column t1\<rparr> \<and> t' = t2"
      using assms c ident r unfolding nextToken_def Let_def t1_def [symmetric]
      by (auto simp: readIdentifier_def)
    ultimately show ?thesis by auto
  next
    case single
    have "tk_line tok = t_line t1 \<and> tk_column tok = t_column t1 \<and> tk_type tok \<noteq> EOF \<and>
          t' = advance t1"
      using assms c single unfolding nextToken_def Let_def t1_def [symmetric]
      by (auto split: if_splits)
    with adv show ?thesis by simp
  qed
  with Some show ?thesis by (simp add: t1_def)
qed

lemma nextToken_advanced:
  assumes "nextToken t = (tok, t')"
  shows "advanced t t'"
proof (cases "current (skipWhitespace t)")
  case None
  with nextToken_cursor [OF assms] show ?thesis
    by (simp add: skipWhitespace_advanced)
next
  case (Some c)
  with nextToken_cursor [OF assms] have "advanced (advance (skipWhitespace t)) t'" by simp
  with Some have "advanced (skipWhitespace t) t'" by (blast intro: advanced_step)
  then show ?thesis by (blast intro: advanced_trans skipWhitespace_advanced)
qed

lemma nextToken_progress:
  assumes "nextToken t = (tok, t')" and "tk_type tok \<noteq> EOF"
  shows "t_position t < t_position t'" and "t_position t' \<le> length (t_text t)"
proof -
  from nextToken_cursor [OF assms(1)] assms(2)
  obtain c where c: "current (skipWhitespace t) = Some c"
    and a: "advanced (advance (skipWhitespace t)) t'"
    by (cases "current (skipWhitespace t)") auto
  have "t_position t \<le> t_position (skipWhitespace t)"
    by (rule advanced_position [OF skipWhitespace_advanced])
  also have "\<dots> < t_position t'"
    by (rule advanced_step_lt [OF c a])
  finally show "t_position t < t_position t'" .
  have "t_position (skipWhitespace t) < length (t_text (skipWhitespace t))"
    by (rule current_Some_lt [OF c])
  then have "t_position (advance (skipWhitespace t)) \<le> length (t_text (advance (skipWhitespace t)))"
    by (simp add: advance_text advance_position)
  from advanced_bound [OF a this] show "t_position t' \<le> length (t_text t)"
    by (simp add: advance_text advanced_text [OF skipWhitespace_advanced])
qed

text \<open>
  \<^verbatim>\<open>tokenize()\<close>: the do-while loop, with the array \<^verbatim>\<open>tokens\<close> as an accumulator. It
  ends because every token but EOF consumes at least one character.
\<close>

function tokenize_loop :: "tokenizer \<Rightarrow> token list \<Rightarrow> token list" where
  "tokenize_loop t tokens =
     (let (token, t') = nextToken t;
          tokens' = (if tk_type token \<noteq> WHITESPACE then tokens @ [token] else tokens)
      in if tk_type token \<noteq> EOF then tokenize_loop t' tokens' else tokens')"
  by pat_completeness auto
termination
proof (relation "measure (\<lambda>(t, tokens). length (t_text t) - t_position t)")
  show "wf (measure (\<lambda>(t, tokens). length (t_text t) - t_position t))"
    by simp
next
  fix t :: tokenizer and tokens :: "token list" and x token t' tokens'
  assume "x = nextToken t" and "(token, t') = x" and "tk_type token \<noteq> EOF"
  then have n: "nextToken t = (token, t')" by simp
  from nextToken_progress [OF n \<open>tk_type token \<noteq> EOF\<close>]
    advanced_text [OF nextToken_advanced [OF n]]
  show "((t', tokens'), t, tokens) \<in> measure (\<lambda>(t, tokens). length (t_text t) - t_position t)"
    by simp
qed

declare tokenize_loop.simps [simp del]

definition tokenize :: "jsstring \<Rightarrow> token list" where
  "tokenize text = tokenize_loop (SysMLTokenizer text) []"

section \<open>The syntax tree\<close>

text \<open>
  \<^verbatim>\<open>class ASTNode { type; properties; children }\<close>. \<^verbatim>\<open>properties\<close> is a JavaScript
  object used as a dictionary from property names to values; it lists its keys in the
  order of their first assignment, which is what \<open>AList.update\<close> does with an
  association list. A key that was never assigned reads as \<^verbatim>\<open>undefined\<close>: \<open>None\<close>.
\<close>

datatype ASTNode =
  ASTNode (node_type: string) (properties: "(string \<times> jsvalue) list") (children: "ASTNode list")

definition addChild :: "ASTNode \<Rightarrow> ASTNode \<Rightarrow> ASTNode" where
  "addChild node child = ASTNode (node_type node) (properties node) (children node @ [child])"

definition set_property :: "string \<Rightarrow> jsvalue \<Rightarrow> (string \<times> jsvalue) list \<Rightarrow> (string \<times> jsvalue) list" where
  "set_property k v props = AList.update k v props"

definition get_property :: "ASTNode \<Rightarrow> string \<Rightarrow> jsvalue option" where
  "get_property node k = map_of (properties node) k"

section \<open>The parser\<close>

text \<open>
  The parser object holds the token array, the cursor \<^verbatim>\<open>this.position\<close> and the root
  \<^verbatim>\<open>this.ast\<close>. The token array is never written and the grammar rules write the
  cursor only, so a rule is a function of the tokens and the cursor that returns its
  node and the new cursor. \<^verbatim>\<open>throw new Error(...)\<close> is the result \<open>Inl\<close>; the error keeps
  what the message is built from: the expected type and value, and the token found
  (\<open>None\<close> for \<^verbatim>\<open>'EOF'\<close>, no token being left).
\<close>

datatype error = Error TokenType "jsstring option" "token option"

definition parser_current :: "token list \<Rightarrow> nat \<Rightarrow> token option" where
  "parser_current tokens position = (if position < length tokens then Some (tokens ! position) else None)"

text \<open>\<^verbatim>\<open>this.current()?.type\<close> and \<^verbatim>\<open>this.current()?.value\<close>, \<^verbatim>\<open>undefined\<close> being \<open>None\<close>.\<close>

definition current_type :: "token list \<Rightarrow> nat \<Rightarrow> TokenType option" where
  "current_type tokens position = map_option tk_type (parser_current tokens position)"

definition current_value :: "token list \<Rightarrow> nat \<Rightarrow> jsvalue option" where
  "current_value tokens position = map_option tk_value (parser_current tokens position)"

text \<open>
  \<^verbatim>\<open>expect(type, value = null)\<close>. A string is truthy when it is not empty, so the test
  \<^verbatim>\<open>value && token.value !== value\<close> is as below.
\<close>

definition expect :: "token list \<Rightarrow> nat \<Rightarrow> TokenType \<Rightarrow> jsstring option \<Rightarrow> error + (token \<times> nat)" where
  "expect tokens position type v =
     (case parser_current tokens position of
        None \<Rightarrow> Inl (Error type v None)
      | Some token \<Rightarrow>
          if tk_type token \<noteq> type then Inl (Error type v (Some token))
          else (case v of
                  None \<Rightarrow> Inr (token, position + 1)
                | Some s \<Rightarrow>
                    if s \<noteq> [] \<and> tk_value token \<noteq> Str s then Inl (Error type v (Some token))
                    else Inr (token, position + 1)))"

text \<open>
  Two statements that the rules repeat. \<open>capture\<close> is
  \<^verbatim>\<open>if (this.current()?.type === T) { node.properties.k = this.current().value; this.advance(); }\<close>
  for the token types \<open>T\<close> of \<open>types\<close>, and \<open>skip_if\<close> is
  \<^verbatim>\<open>if (this.current()?.value === s) { this.advance(); }\<close>.
\<close>

definition capture ::
  "token list \<Rightarrow> TokenType list \<Rightarrow> string \<Rightarrow> (string \<times> jsvalue) list \<times> nat \<Rightarrow> (string \<times> jsvalue) list \<times> nat" where
  "capture tokens types k st =
     (case st of (props, position) \<Rightarrow>
        (case parser_current tokens position of
           None \<Rightarrow> (props, position)
         | Some token \<Rightarrow>
             if tk_type token \<in> set types
             then (set_property k (tk_value token) props, position + 1)
             else (props, position)))"

definition skip_if :: "token list \<Rightarrow> string \<Rightarrow> nat \<Rightarrow> nat" where
  "skip_if tokens s position =
     (if current_value tokens position = Some (Str (js s)) then position + 1 else position)"

definition parseAttribute :: "token list \<Rightarrow> nat \<Rightarrow> error + (ASTNode \<times> nat)" where
  "parseAttribute tokens position =
     (case expect tokens position KEYWORD (Some (js ''attribute'')) of
        Inl e \<Rightarrow> Inl e
      | Inr (_, p1) \<Rightarrow>
          (let (props1, p2) = capture tokens [IDENTIFIER] ''name'' ([], p1);
               (props2, p3) =
                 (if current_value tokens p2 = Some (Str (js '':''))
                  then capture tokens [IDENTIFIER] ''type'' (props1, p2 + 1)
                  else (props1, p2));
               (props3, p4) =
                 (if current_value tokens p3 = Some (Str (js ''=''))
                  then capture tokens [NUMBER, STRING] ''defaultValue'' (props2, p3 + 1)
                  else (props2, p3))
           in Inr (ASTNode ''attribute'' props3 [], skip_if tokens '';'' p4)))"

definition parsePort :: "token list \<Rightarrow> nat \<Rightarrow> error + (ASTNode \<times> nat)" where
  "parsePort tokens position =
     (case expect tokens position KEYWORD (Some (js ''port'')) of
        Inl e \<Rightarrow> Inl e
      | Inr (_, p1) \<Rightarrow>
          (let (props1, p2) = capture tokens [IDENTIFIER] ''name'' ([], p1);
               (props2, p3) =
                 (if current_value tokens p2 = Some (Str (js '':''))
                  then capture tokens [IDENTIFIER] ''type'' (props1, p2 + 1)
                  else (props1, p2))
           in Inr (ASTNode ''port'' props2 [], skip_if tokens '';'' p3)))"

definition parseConnection :: "token list \<Rightarrow> nat \<Rightarrow> error + (ASTNode \<times> nat)" where
  "parseConnection tokens position =
     (case expect tokens position KEYWORD (Some (js ''connection'')) of
        Inl e \<Rightarrow> Inl e
      | Inr (_, p1) \<Rightarrow>
          (let (props1, p2) = capture tokens [IDENTIFIER] ''name'' ([], p1);
               (props2, p3) =
                 (if current_value tokens p2 = Some (Str (js '':''))
                  then (if current_type tokens (p2 + 1) = Some IDENTIFIER
                        then capture tokens [IDENTIFIER] ''to''
                               (capture tokens [IDENTIFIER] ''from'' (props1, p2 + 1))
                        else (props1, p2 + 1))
                  else (props1, p2))
           in Inr (ASTNode ''connection'' props2 [], skip_if tokens '';'' p3)))"

text \<open>The skipping loop of \<^verbatim>\<open>parseGenericElement\<close>: up to the next \<^verbatim>\<open>;\<close> or \<^verbatim>\<open>}\<close>.\<close>

function skip_loop :: "token list \<Rightarrow> nat \<Rightarrow> nat" where
  "skip_loop tokens position =
     (case parser_current tokens position of
        None \<Rightarrow> position
      | Some token \<Rightarrow>
          if tk_value token \<noteq> Str (js '';'') \<and> tk_value token \<noteq> Str (js ''}'')
          then skip_loop tokens (position + 1)
          else position)"
  by pat_completeness auto
termination
  by (relation "measure (\<lambda>(tokens, position). length tokens - position)")
     (auto simp: parser_current_def split: if_splits)

declare skip_loop.simps [simp del]

definition parseGenericElement :: "token list \<Rightarrow> nat \<Rightarrow> ASTNode option \<times> nat" where
  "parseGenericElement tokens position =
     (case parser_current tokens position of
        None \<Rightarrow> (None, position)
      | Some _ \<Rightarrow>
          (let (props, p1) = capture tokens [IDENTIFIER] ''name'' ([], position);
               p2 = skip_loop tokens p1
           in (Some (ASTNode ''generic'' props []), skip_if tokens '';'' p2)))"

text \<open>
  The rules that call each other: \<^verbatim>\<open>parseElement\<close> and the four rules with a body
  in braces. A stray token can keep their loops running for ever (the theorems below
  show inputs where it does), so \<open>parseElement\<close> and the loop count their calls and
  iterations down from a bound, the first argument. The result \<open>None\<close> says that the
  bound was reached before the call returned; a call that returns does so under every
  larger bound, with the same result (\<open>parseElement_mono\<close>).

  \<open>parseBody\<close> is
  \<^verbatim>\<open>while (this.current() && this.current().value !== '}') {
    const element = this.parseElement(); if (element) { node.addChild(element); } }\<close>,
  the loop that the four rules share word for word, on the children of the node. Each
  of the four rules takes it as its argument \<open>body\<close>: the loop from a given cursor,
  under the bound that \<open>parseElement\<close> has left. \<open>braces\<close> is what the four rules do
  once the value of the current token is \<^verbatim>\<open>{\<close>:
  \<^verbatim>\<open>this.expect(PUNCTUATION, '{')\<close>, the loop, \<^verbatim>\<open>this.expect(PUNCTUATION, '}')\<close>.
\<close>

type_synonym 'a parsed = "(error + ('a \<times> nat)) option"

definition braces ::
  "(nat \<Rightarrow> ASTNode list parsed) \<Rightarrow> token list \<Rightarrow> nat \<Rightarrow> ASTNode list parsed" where
  "braces body tokens position =
     (case expect tokens position PUNCTUATION (Some (js ''{'')) of
        Inl e \<Rightarrow> Some (Inl e)
      | Inr (_, p1) \<Rightarrow>
          (case body p1 of
             None \<Rightarrow> None
           | Some (Inl e) \<Rightarrow> Some (Inl e)
           | Some (Inr (nodes, p2)) \<Rightarrow>
               (case expect tokens p2 PUNCTUATION (Some (js ''}'')) of
                  Inl e \<Rightarrow> Some (Inl e)
                | Inr (_, p3) \<Rightarrow> Some (Inr (nodes, p3)))))"

definition parsePackage :: "(nat \<Rightarrow> ASTNode list parsed) \<Rightarrow> token list \<Rightarrow> nat \<Rightarrow> ASTNode parsed" where
  "parsePackage body tokens position =
     (case expect tokens position KEYWORD (Some (js ''package'')) of
        Inl e \<Rightarrow> Some (Inl e)
      | Inr (_, p1) \<Rightarrow>
          (let (props, p2) = capture tokens [IDENTIFIER] ''name'' ([], p1)
           in if current_value tokens p2 = Some (Str (js ''{'')) then
                map_option (map_sum id (map_prod (ASTNode ''package'' props) id))
                  (braces body tokens p2)
              else Some (Inr (ASTNode ''package'' props [], p2))))"

definition parsePart :: "(nat \<Rightarrow> ASTNode list parsed) \<Rightarrow> token list \<Rightarrow> nat \<Rightarrow> ASTNode parsed" where
  "parsePart body tokens position =
     (case expect tokens position KEYWORD (Some (js ''part'')) of
        Inl e \<Rightarrow> Some (Inl e)
      | Inr (_, p1) \<Rightarrow>
          (let (props1, p2) = capture tokens [IDENTIFIER] ''name'' ([], p1);
               (props, p3) =
                 (if current_value tokens p2 = Some (Str (js ''specializes''))
                  then capture tokens [IDENTIFIER] ''specializes'' (props1, p2 + 1)
                  else (props1, p2))
           in if current_value tokens p3 = Some (Str (js ''{'')) then
                map_option (map_sum id (map_prod (ASTNode ''part'' props) id))
                  (braces body tokens p3)
              else Some (Inr (ASTNode ''part'' props [], skip_if tokens '';'' p3))))"

definition parseRequirement :: "(nat \<Rightarrow> ASTNode list parsed) \<Rightarrow> token list \<Rightarrow> nat \<Rightarrow> ASTNode parsed" where
  "parseRequirement body tokens position =
     (case expect tokens position KEYWORD (Some (js ''requirement'')) of
        Inl e \<Rightarrow> Some (Inl e)
      | Inr (_, p1) \<Rightarrow>
          (let (props, p2) = capture tokens [IDENTIFIER] ''name'' ([], p1)
           in if current_value tokens p2 = Some (Str (js ''{'')) then
                map_option (map_sum id (map_prod (ASTNode ''requirement'' props) id))
                  (braces body tokens p2)
              else Some (Inr (ASTNode ''requirement'' props [], p2))))"

definition parseUseCase :: "(nat \<Rightarrow> ASTNode list parsed) \<Rightarrow> token list \<Rightarrow> nat \<Rightarrow> ASTNode parsed" where
  "parseUseCase body tokens position =
     (case expect tokens position KEYWORD (Some (js ''use'')) of
        Inl e \<Rightarrow> Some (Inl e)
      | Inr (_, p1) \<Rightarrow>
          (let (props, p2) = capture tokens [IDENTIFIER] ''name'' ([], skip_if tokens ''case'' p1)
           in if current_value tokens p2 = Some (Str (js ''{'')) then
                map_option (map_sum id (map_prod (ASTNode ''usecase'' props) id))
                  (braces body tokens p2)
              else Some (Inr (ASTNode ''usecase'' props [], p2))))"

text \<open>
  The \<^verbatim>\<open>switch\<close> of \<^verbatim>\<open>parseElement\<close> on the text of a keyword token; \<open>found\<close> turns a
  rule's node into the element that \<^verbatim>\<open>parseElement\<close> returns (never \<^verbatim>\<open>null\<close> there).
\<close>

definition found :: "ASTNode parsed \<Rightarrow> ASTNode option parsed" where
  "found r = map_option (map_sum id (map_prod Some id)) r"

definition dispatch ::
  "(nat \<Rightarrow> ASTNode list parsed) \<Rightarrow> jsvalue \<Rightarrow> token list \<Rightarrow> nat \<Rightarrow> ASTNode option parsed" where
  "dispatch body v tokens position =
     (if v = Str (js ''package'') then found (parsePackage body tokens position)
      else if v = Str (js ''part'') then found (parsePart body tokens position)
      else if v = Str (js ''attribute'') then found (Some (parseAttribute tokens position))
      else if v = Str (js ''port'') then found (Some (parsePort tokens position))
      else if v = Str (js ''connection'') then found (Some (parseConnection tokens position))
      else if v = Str (js ''requirement'') then found (parseRequirement body tokens position)
      else if v = Str (js ''use'') then found (parseUseCase body tokens position)
      else Some (Inr (parseGenericElement tokens position)))"

fun parseElement :: "nat \<Rightarrow> token list \<Rightarrow> nat \<Rightarrow> ASTNode option parsed"
  and parseBody :: "nat \<Rightarrow> token list \<Rightarrow> nat \<Rightarrow> ASTNode list \<Rightarrow> ASTNode list parsed"
where
  "parseElement 0 tokens position = None"
| "parseElement (Suc n) tokens position =
     (case parser_current tokens position of
        None \<Rightarrow> Some (Inr (None, position))
      | Some token \<Rightarrow>
          if tk_type token = EOF then Some (Inr (None, position))
          else if tk_type token = KEYWORD
          then dispatch (\<lambda>p. parseBody n tokens p []) (tk_value token) tokens position
          else Some (Inr (parseGenericElement tokens position)))"
| "parseBody 0 tokens position nodes = None"
| "parseBody (Suc n) tokens position nodes =
     (case parser_current tokens position of
        None \<Rightarrow> Some (Inr (nodes, position))
      | Some token \<Rightarrow>
          if tk_value token = Str (js ''}'') then Some (Inr (nodes, position))
          else (case parseElement n tokens position of
                  None \<Rightarrow> None
                | Some (Inl e) \<Rightarrow> Some (Inl e)
                | Some (Inr (element, p)) \<Rightarrow>
                    parseBody n tokens p
                      (case element of None \<Rightarrow> nodes | Some node \<Rightarrow> nodes @ [node])))"

text \<open>
  \<^verbatim>\<open>parse()\<close>. \<open>parse_loop\<close> is the body of the \<^verbatim>\<open>try\<close>: it returns the error that was
  thrown, if one was, and \<^verbatim>\<open>this.ast\<close> as it stands then. \<open>parse\<close> returns what the
  caller gets, the root, together with what was written to \<^verbatim>\<open>console.error\<close>.
\<close>

fun parse_loop :: "nat \<Rightarrow> token list \<Rightarrow> nat \<Rightarrow> ASTNode \<Rightarrow> (error option \<times> ASTNode) option" where
  "parse_loop 0 tokens position ast = None"
| "parse_loop (Suc n) tokens position ast =
     (case parser_current tokens position of
        None \<Rightarrow> Some (None, ast)
      | Some token \<Rightarrow>
          if tk_type token = EOF then Some (None, ast)
          else (case parseElement n tokens position of
                  None \<Rightarrow> None
                | Some (Inl e) \<Rightarrow> Some (Some e, ast)
                | Some (Inr (element, p)) \<Rightarrow>
                    parse_loop n tokens p
                      (case element of None \<Rightarrow> ast | Some node \<Rightarrow> addChild ast node)))"

definition parse :: "nat \<Rightarrow> token list \<Rightarrow> (ASTNode \<times> error list) option" where
  "parse n tokens =
     (case parse_loop n tokens 0 (ASTNode ''root'' [] []) of
        None \<Rightarrow> None
      | Some (None, ast) \<Rightarrow> Some (ast, [])
      | Some (Some e, ast) \<Rightarrow> Some (ast, [e]))"

section \<open>The selection test of the renderer\<close>

text \<open>
  \<^verbatim>\<open>astToSVG\<close> passes every node to its component with
  \<^verbatim>\<open>isSelected={selectedNode?.properties.name === astNode.properties.name}\<close>, where
  \<^verbatim>\<open>selectedNode\<close> is a node or \<^verbatim>\<open>null\<close>. A name is the string of an IDENTIFIER token
  or is absent, and \<^verbatim>\<open>===\<close> on strings and \<^verbatim>\<open>undefined\<close> is equality.
\<close>

definition isSelected :: "ASTNode option \<Rightarrow> ASTNode \<Rightarrow> bool" where
  "isSelected selectedNode astNode =
     ((case selectedNode of None \<Rightarrow> None | Some node \<Rightarrow> get_property node ''name'')
      = get_property astNode ''name'')"

section \<open>Notions that the properties are stated with\<close>

subsection \<open>String literals\<close>

text \<open>
  What stands between the quotes of a string literal, as the specification describes
  it: a sequence of plain characters, each other than the opening quote and the
  backslash, and of escapes, a backslash and the character after it. \<open>written\<close> is
  how an item stands in the text and \<open>decoded\<close> the character it contributes to the
  value.
\<close>

datatype item = Plain cu | Escaped cu

fun written :: "item \<Rightarrow> jsstring" where
  "written (Plain c) = [c]"
| "written (Escaped c) = [backslash, c]"

fun decoded :: "item \<Rightarrow> cu" where
  "decoded (Plain c) = c"
| "decoded (Escaped c) = c"

fun plain_ok :: "cu \<Rightarrow> item \<Rightarrow> bool" where
  "plain_ok q (Plain c) = (c \<noteq> q \<and> c \<noteq> backslash)"
| "plain_ok q (Escaped c) = True"

subsection \<open>Lines and columns\<close>

text \<open>
  The line and the column of the character at index \<open>i\<close> of a text, counted from 1:
  one more than the number of newlines before it, and one more than the number of
  characters between the last of these newlines and it. \<open>token_at s tok i\<close>: the token
  records the line and column of index \<open>i\<close>, which is the end of the text for the EOF
  token and otherwise the index of a character that is not white space and with which
  the token begins (\<open>begins\<close>: the quote of a string, the slash of a comment, the first
  character of the value of any other token, which is the text that was read).
  \<open>position_le\<close> is the lexicographic order on the pairs of line and column; \<open>located\<close>
  says that the counters of the tokenizer are the line and column of its cursor.
\<close>

definition line_of :: "jsstring \<Rightarrow> nat \<Rightarrow> nat" where
  "line_of s i = 1 + length (filter (\<lambda>c. c = newline) (take i s))"

definition column_of :: "jsstring \<Rightarrow> nat \<Rightarrow> nat" where
  "column_of s i = 1 + length (takeWhile (\<lambda>c. c \<noteq> newline) (rev (take i s)))"

fun first_of :: "jsvalue \<Rightarrow> cu option" where
  "first_of (Str (c # s)) = Some c"
| "first_of (Num (c # s)) = Some c"
| "first_of v = None"

definition begins :: "token \<Rightarrow> cu \<Rightarrow> bool" where
  "begins tok c =
     (case tk_type tok of
        STRING \<Rightarrow> c = dquote \<or> c = squote
      | COMMENT \<Rightarrow> c = slash
      | EOF \<Rightarrow> False
      | WHITESPACE \<Rightarrow> False
      | _ \<Rightarrow> first_of (tk_value tok) = Some c)"

definition token_at :: "jsstring \<Rightarrow> token \<Rightarrow> nat \<Rightarrow> bool" where
  "token_at s tok i =
     (tk_line tok = line_of s i \<and> tk_column tok = column_of s i \<and>
      (if tk_type tok = EOF then i = length s
       else i < length s \<and> \<not> is_space (s ! i) \<and> begins tok (s ! i)))"

definition position_le :: "token \<Rightarrow> token \<Rightarrow> bool" where
  "position_le a b =
     (tk_line a < tk_line b \<or> (tk_line a = tk_line b \<and> tk_column a \<le> tk_column b))"

definition located :: "tokenizer \<Rightarrow> bool" where
  "located t =
     (t_line t = line_of (t_text t) (t_position t) \<and>
      t_column t = column_of (t_text t) (t_position t))"

text \<open>
  \<open>tokenize_spans\<close> is the loop of \<^verbatim>\<open>tokenize()\<close> again, keeping beside each token two
  cursors of the run: the one at which \<^verbatim>\<open>nextToken()\<close> reads \<^verbatim>\<open>this.line\<close> and
  \<^verbatim>\<open>this.column\<close> for the token, which is the cursor after \<^verbatim>\<open>skipWhitespace()\<close>, and the
  one at which the call returns. \<open>span_ok s (tok, i, j)\<close>: the token is at \<open>i\<close> in the
  sense of \<open>token_at\<close>, and \<open>j\<close> is \<open>i\<close> for the EOF token and otherwise lies after \<open>i\<close>,
  within the text. \<open>linked s p spans\<close>: the first index of each triple is the index of
  the first character that is not white space at or after the point where the token
  before it ended, \<open>p\<close> for the first token (the end of the text when there is no such
  character).
\<close>

function tokenize_spans ::
  "tokenizer \<Rightarrow> (token \<times> nat \<times> nat) list \<Rightarrow> (token \<times> nat \<times> nat) list" where
  "tokenize_spans t spans =
     (let start = t_position (skipWhitespace t);
          (token, t') = nextToken t;
          spans' = spans @ [(token, start, t_position t')]
      in if tk_type token \<noteq> EOF then tokenize_spans t' spans' else spans')"
  by pat_completeness auto
termination
proof (relation "measure (\<lambda>(t, spans). length (t_text t) - t_position t)")
  show "wf (measure (\<lambda>(t, spans). length (t_text t) - t_position t))"
    by simp
next
  fix t :: tokenizer and spans spans' :: "(token \<times> nat \<times> nat) list" and start x token t'
  assume "x = nextToken t" and "(token, t') = x" and "tk_type token \<noteq> EOF"
  then have n: "nextToken t = (token, t')" by simp
  from nextToken_progress [OF n \<open>tk_type token \<noteq> EOF\<close>]
    advanced_text [OF nextToken_advanced [OF n]]
  show "((t', spans'), t, spans) \<in> measure (\<lambda>(t, spans). length (t_text t) - t_position t)"
    by simp
qed

declare tokenize_spans.simps [simp del]

definition token_spans :: "jsstring \<Rightarrow> (token \<times> nat \<times> nat) list" where
  "token_spans s = tokenize_spans (SysMLTokenizer s) []"

fun linked :: "jsstring \<Rightarrow> nat \<Rightarrow> (token \<times> nat \<times> nat) list \<Rightarrow> bool" where
  "linked s p [] = True"
| "linked s p ((tok, i, j) # spans) =
     (i = p + length (takeWhile is_space (drop p s)) \<and> linked s j spans)"

fun span_ok :: "jsstring \<Rightarrow> token \<times> nat \<times> nat \<Rightarrow> bool" where
  "span_ok s (tok, i, j) =
     (token_at s tok i \<and> (if tk_type tok = EOF then j = i else i < j \<and> j \<le> length s))"

subsection \<open>The generic rule\<close>

text \<open>The keywords that \<^verbatim>\<open>parseElement\<close> has a \<^verbatim>\<open>case\<close> for.\<close>

definition dedicated :: "jsstring list" where
  "dedicated = map js [''package'', ''part'', ''attribute'', ''port'', ''connection'',
                       ''requirement'', ''use'']"

subsection \<open>The elements completed at the top level\<close>

text \<open>
  \<open>at_end\<close> is the negation of the condition of the loop of \<^verbatim>\<open>parse()\<close>.
  \<open>siblings tokens p nodes p'\<close>: from the cursor \<open>p\<close>, the calls of \<^verbatim>\<open>parseElement\<close> that
  the loop makes one after the other return the elements \<open>nodes\<close>, in this order, and
  leave the cursor at \<open>p'\<close>; a call that returns \<^verbatim>\<open>null\<close> adds nothing.
  \<open>with_children ast nodes\<close> is \<open>ast\<close> after \<^verbatim>\<open>addChild\<close> of each of \<open>nodes\<close>.
\<close>

definition at_end :: "token list \<Rightarrow> nat \<Rightarrow> bool" where
  "at_end tokens position =
     (case parser_current tokens position of None \<Rightarrow> True | Some token \<Rightarrow> tk_type token = EOF)"

inductive siblings :: "token list \<Rightarrow> nat \<Rightarrow> ASTNode list \<Rightarrow> nat \<Rightarrow> bool" for tokens where
  none: "siblings tokens p [] p"
| element:
    "\<not> at_end tokens p \<Longrightarrow> parseElement n tokens p = Some (Inr (Some node, p1)) \<Longrightarrow>
     siblings tokens p1 nodes p' \<Longrightarrow> siblings tokens p (node # nodes) p'"
| null:
    "\<not> at_end tokens p \<Longrightarrow> parseElement n tokens p = Some (Inr (None, p1)) \<Longrightarrow>
     siblings tokens p1 nodes p' \<Longrightarrow> siblings tokens p nodes p'"

definition with_children :: "ASTNode \<Rightarrow> ASTNode list \<Rightarrow> ASTNode" where
  "with_children ast nodes = ASTNode (node_type ast) (properties ast) (children ast @ nodes)"

section \<open>Lemmas\<close>

subsection \<open>The shape of the token sequence\<close>

lemma nextToken_not_WHITESPACE: "nextToken t = (tok, t') \<Longrightarrow> tk_type tok \<noteq> WHITESPACE"
  unfolding nextToken_def Let_def
  by (auto split: option.splits if_splits prod.splits)

lemma tokenize_loop_EOF:
  "nextToken t = (tok, t') \<Longrightarrow> tk_type tok = EOF \<Longrightarrow> tokenize_loop t tokens = tokens @ [tok]"
  by (subst tokenize_loop.simps) simp

lemma tokenize_loop_step:
  "nextToken t = (tok, t') \<Longrightarrow> tk_type tok \<noteq> EOF \<Longrightarrow>
   tokenize_loop t tokens = tokenize_loop t' (tokens @ [tok])"
  by (subst tokenize_loop.simps) (simp add: nextToken_not_WHITESPACE)

lemma tokenize_loop_shape:
  "\<exists>ts eof. tokenize_loop t tokens = tokens @ ts @ [eof] \<and> tk_type eof = EOF \<and>
            tk_value eof = Null \<and> filter (\<lambda>x. tk_type x = EOF) ts = []"
proof (induction t tokens rule: tokenize_loop.induct)
  case (1 t tokens)
  obtain tok t' where n: "nextToken t = (tok, t')" by (cases "nextToken t")
  show ?case
  proof (cases "tk_type tok = EOF")
    case True
    have "tk_value tok = Null"
      using nextToken_cursor [OF n] True by (cases "current (skipWhitespace t)") auto
    with True tokenize_loop_EOF [OF n True, of tokens] show ?thesis by auto
  next
    case False
    from "1.IH" [OF n [symmetric] refl refl False]
    obtain ts eof where
      "tokenize_loop t' (if tk_type tok \<noteq> WHITESPACE then tokens @ [tok] else tokens) =
         (if tk_type tok \<noteq> WHITESPACE then tokens @ [tok] else tokens) @ ts @ [eof]"
      and e: "tk_type eof = EOF" "tk_value eof = Null" "filter (\<lambda>x. tk_type x = EOF) ts = []"
      by blast
    then have "tokenize_loop t' (tokens @ [tok]) = tokens @ (tok # ts) @ [eof]"
      using nextToken_not_WHITESPACE [OF n] by simp
    moreover have "filter (\<lambda>x. tk_type x = EOF) (tok # ts) = []"
      using False e(3) by simp
    ultimately show ?thesis
      using tokenize_loop_step [OF n False, of tokens] e(1,2) by metis
  qed
qed

subsection \<open>Reading a string literal\<close>

lemma current_at:
  "t_text t = xs @ c # ys \<Longrightarrow> t_position t = length xs \<Longrightarrow> current t = Some c"
  by (simp add: current_def)

lemma current_at_end:
  "t_text t = xs \<Longrightarrow> t_position t = length xs \<Longrightarrow> current t = None"
  by (simp add: current_def)

lemma readString_loop_items:
  assumes "t_text t = xs @ concat (map written items) @ rest"
    and "t_position t = length xs"
    and "list_all (plain_ok q) items"
    and "q \<noteq> backslash"
  shows "readString_loop (Some q) t v =
           readString_loop (Some q) ((advance ^^ length (concat (map written items))) t)
             (v @ map decoded items)"
  using assms(1-3)
proof (induction items arbitrary: t xs v)
  case Nil
  show ?case by simp
next
  case (Cons it items)
  show ?case
  proof (cases it)
    case (Plain c)
    with Cons.prems have c: "current t = Some c" "c \<noteq> q" "c \<noteq> backslash"
      by (auto simp: current_at)
    have "t_text (advance t) = (xs @ [c]) @ concat (map written items) @ rest"
      "t_position (advance t) = length (xs @ [c])"
      using Cons.prems Plain by (simp_all add: advance_text advance_position)
    from Cons.IH [OF this] Cons.prems(3)
    have "readString_loop (Some q) (advance t) (v @ [c]) =
            readString_loop (Some q)
              ((advance ^^ length (concat (map written items))) (advance t))
              ((v @ [c]) @ map decoded items)"
      by simp
    with c Plain show ?thesis
      by (simp add: readString_loop_plain funpow_swap1)
  next
    case (Escaped c)
    with Cons.prems have b: "current t = Some backslash"
      by (auto simp: current_at)
    have "t_text (advance t) = (xs @ [backslash]) @ c # concat (map written items) @ rest"
      "t_position (advance t) = length (xs @ [backslash])"
      using Cons.prems Escaped by (simp_all add: advance_text advance_position)
    then have c: "current (advance t) = Some c" by (rule current_at)
    have "t_text (advance (advance t)) = (xs @ [backslash, c]) @ concat (map written items) @ rest"
      "t_position (advance (advance t)) = length (xs @ [backslash, c])"
      using Cons.prems Escaped by (simp_all add: advance_text advance_position)
    from Cons.IH [OF this] Cons.prems(3)
    have "readString_loop (Some q) (advance (advance t)) (v @ [c]) =
            readString_loop (Some q)
              ((advance ^^ length (concat (map written items))) (advance (advance t)))
              ((v @ [c]) @ map decoded items)"
      by simp
    with b c Escaped assms(4) show ?thesis
      by (simp add: readString_loop_escape funpow_swap1)
  qed
qed

lemma quote_chars:
  assumes "q = dquote \<or> q = squote"
  shows "\<not> is_space q" "q \<noteq> slash" "q \<noteq> backslash"
  using assms by (auto simp: is_space_def dquote_def squote_def slash_def backslash_def)

lemma nextToken_string:
  assumes c: "current t = Some q" and q: "q = dquote \<or> q = squote"
  shows "nextToken t =
           (\<lparr>tk_type = STRING, tk_value = Str (fst (readString t)), tk_line = t_line t,
              tk_column = t_column t\<rparr>, snd (readString t))"
proof -
  have "skipWhitespace t = t"
    using c quote_chars(1) [OF q] by (rule skipWhitespace_stop)
  with c q quote_chars(2) [OF q] show ?thesis
    by (simp add: nextToken_def Let_def split_beta)
qed

lemma nextToken_at_end:
  "current t = None \<Longrightarrow>
   nextToken t = (\<lparr>tk_type = EOF, tk_value = Null, tk_line = t_line t, tk_column = t_column t\<rparr>, t)"
  by (simp add: nextToken_def Let_def skipWhitespace_end)

text \<open>
  The state after the opening quote and the items of a literal, and what
  \<^verbatim>\<open>readString\<close> has accumulated there.
\<close>

lemma readString_items:
  assumes tx: "t_text t = pre @ [q] @ concat (map written items) @ rest"
    and pos: "t_position t = length pre"
    and q: "q \<noteq> backslash"
    and items: "list_all (plain_ok q) items"
  defines "t2 \<equiv> (advance ^^ length (concat (map written items))) (advance t)"
  shows "current t = Some q"
    and "readString_loop (Some q) (advance t) [] = readString_loop (Some q) t2 (map decoded items)"
    and "t_text t2 = (pre @ [q] @ concat (map written items)) @ rest"
    and "t_position t2 = length (pre @ [q] @ concat (map written items))"
proof -
  show "current t = Some q" using tx pos by (simp add: current_at)
  have 1: "t_text (advance t) = (pre @ [q]) @ concat (map written items) @ rest"
    "t_position (advance t) = length (pre @ [q])"
    using tx pos by (simp_all add: advance_text advance_position)
  from readString_loop_items [OF 1 items q, of "[]"]
  show "readString_loop (Some q) (advance t) [] = readString_loop (Some q) t2 (map decoded items)"
    by (simp add: t2_def)
  show "t_text t2 = (pre @ [q] @ concat (map written items)) @ rest"
    "t_position t2 = length (pre @ [q] @ concat (map written items))"
    using tx pos
    by (simp_all add: t2_def funpow_advance_text funpow_advance_position advance_text advance_position)
qed

subsection \<open>The counters of the tokenizer\<close>

lemma located_advance:
  assumes "current t = Some c" and "located t"
  shows "located (advance t)"
proof -
  have lt: "t_position t < length (t_text t)" and c: "t_text t ! t_position t = c"
    using assms(1) by (auto simp: current_def split: if_splits)
  have tk: "take (Suc (t_position t)) (t_text t) = take (t_position t) (t_text t) @ [c]"
    using lt c by (simp add: take_Suc_conv_app_nth)
  show ?thesis
    using assms tk
    by (cases "c = newline")
       (simp_all add: located_def advance_def line_of_def column_of_def)
qed

lemma located_funpow:
  "located t \<Longrightarrow> t_position t + k \<le> length (t_text t) \<Longrightarrow> located ((advance ^^ k) t)"
proof (induction k)
  case 0
  then show ?case by simp
next
  case (Suc k)
  then have l: "located ((advance ^^ k) t)" by simp
  have "t_position ((advance ^^ k) t) < length (t_text ((advance ^^ k) t))"
    using Suc.prems(2) by (simp add: funpow_advance_position funpow_advance_text)
  then obtain c where "current ((advance ^^ k) t) = Some c"
    by (simp add: current_def)
  from located_advance [OF this l] show ?case by simp
qed

lemma located_advanced: "advanced t t' \<Longrightarrow> located t \<Longrightarrow> located t'"
  by (auto simp: advanced_def intro: located_funpow)

lemma line_col_mono:
  assumes "i \<le> j"
  shows "line_of s i < line_of s j \<or> (line_of s i = line_of s j \<and> column_of s i \<le> column_of s j)"
proof -
  define seg where "seg = drop i (take j s)"
  have tj: "take j s = take i s @ seg"
    using assms by (metis seg_def append_take_drop_id min.absorb1 take_take)
  show ?thesis
  proof (cases "filter (\<lambda>c. c = newline) seg = []")
    case False
    then have "0 < length (filter (\<lambda>c. c = newline) seg)" by simp
    then show ?thesis by (simp add: line_of_def tj)
  next
    case True
    then have "c \<noteq> newline" if "c \<in> set (rev seg)" for c
      using that by (auto simp: filter_empty_conv)
    then have "takeWhile (\<lambda>c. c \<noteq> newline) (rev seg @ rev (take i s)) =
               rev seg @ takeWhile (\<lambda>c. c \<noteq> newline) (rev (take i s))"
      by (intro takeWhile_append2)
    with True show ?thesis by (simp add: line_of_def column_of_def tj)
  qed
qed

lemma readNumber_loop_prefix: "\<exists>s. fst (readNumber_loop t v) = v @ s"
proof (induction t v rule: readNumber_loop.induct)
  case (1 t v)
  show ?case
  proof (cases "current t")
    case None
    then show ?thesis by (simp add: readNumber_loop_end)
  next
    case (Some c)
    show ?thesis
    proof (cases "is_digit_or_dot c")
      case True
      with Some "1.IH" [OF Some True] show ?thesis by (auto simp: readNumber_loop_step)
    next
      case False
      with Some show ?thesis by (simp add: readNumber_loop_stop)
    qed
  qed
qed

lemma readIdentifier_loop_prefix: "\<exists>s. fst (readIdentifier_loop t v) = v @ s"
proof (induction t v rule: readIdentifier_loop.induct)
  case (1 t v)
  show ?case
  proof (cases "current t")
    case None
    then show ?thesis by (simp add: readIdentifier_loop_end)
  next
    case (Some c)
    show ?thesis
    proof (cases "is_ident_char c")
      case True
      with Some "1.IH" [OF Some True] show ?thesis by (auto simp: readIdentifier_loop_step)
    next
      case False
      with Some show ?thesis by (simp add: readIdentifier_loop_stop)
    qed
  qed
qed

lemma nextToken_begins:
  assumes n: "nextToken t = (tok, t')" and c: "current (skipWhitespace t) = Some c"
  shows "begins tok c"
proof -
  define t1 where "t1 = skipWhitespace t"
  have c1: "current t1 = Some c" using c by (simp add: t1_def)
  consider (comment) "c = slash" "peek t1 1 = Some slash \<or> peek t1 1 = Some star"
    | (string) "\<not> (c = slash \<and> (peek t1 1 = Some slash \<or> peek t1 1 = Some star))"
        "c = dquote \<or> c = squote"
    | (number) "\<not> (c = slash \<and> (peek t1 1 = Some slash \<or> peek t1 1 = Some star))"
        "\<not> (c = dquote \<or> c = squote)" "is_digit c"
    | (ident) "\<not> (c = slash \<and> (peek t1 1 = Some slash \<or> peek t1 1 = Some star))"
        "\<not> (c = dquote \<or> c = squote)" "\<not> is_digit c" "is_ident_start c"
    | (single) "\<not> (c = slash \<and> (peek t1 1 = Some slash \<or> peek t1 1 = Some star))"
        "\<not> (c = dquote \<or> c = squote)" "\<not> is_digit c" "\<not> is_ident_start c"
    by blast
  then show ?thesis
  proof cases
    case comment
    with n c1 show ?thesis
      unfolding nextToken_def Let_def t1_def [symmetric]
      by (auto simp: begins_def split: prod.splits)
  next
    case string
    with n c1 show ?thesis
      unfolding nextToken_def Let_def t1_def [symmetric]
      by (auto simp: begins_def split: prod.splits)
  next
    case number
    have "is_digit_or_dot c" using number(3) by (simp add: is_digit_or_dot_def)
    with c1 have "readNumber_loop t1 [] = readNumber_loop (advance t1) ([] @ [c])"
      by (rule readNumber_loop_step)
    with readNumber_loop_prefix [of "advance t1" "[c]"]
    obtain s where "fst (readNumber_loop t1 []) = c # s" by auto
    with n c1 number show ?thesis
      unfolding nextToken_def Let_def t1_def [symmetric]
      by (auto simp: begins_def readNumber_def split: prod.splits)
  next
    case ident
    have "is_ident_char c"
      using ident(4) by (auto simp: is_ident_char_def is_ident_start_def)
    with c1 have "readIdentifier_loop t1 [] = readIdentifier_loop (advance t1) ([] @ [c])"
      by (rule readIdentifier_loop_step)
    with readIdentifier_loop_prefix [of "advance t1" "[c]"]
    obtain s where "fst (readIdentifier_loop t1 []) = c # s" by auto
    with n c1 ident show ?thesis
      unfolding nextToken_def Let_def t1_def [symmetric]
      by (auto simp: begins_def readIdentifier_def split: prod.splits)
  next
    case single
    with n c1 show ?thesis
      unfolding nextToken_def Let_def t1_def [symmetric]
      by (auto simp: begins_def split: if_splits)
  qed
qed

lemma skipWhitespace_position:
  "t_position (skipWhitespace t) =
     t_position t + length (takeWhile is_space (drop (t_position t) (t_text t)))"
proof (induction t rule: skipWhitespace.induct)
  case (1 t)
  show ?case
  proof (cases "current t")
    case None
    then have "drop (t_position t) (t_text t) = []"
      by (simp add: current_def split: if_splits)
    with None show ?thesis by (simp add: skipWhitespace_end)
  next
    case (Some c)
    then have d: "drop (t_position t) (t_text t) = c # drop (Suc (t_position t)) (t_text t)"
      by (auto simp: current_def Cons_nth_drop_Suc split: if_splits)
    show ?thesis
    proof (cases "is_space c")
      case True
      with Some "1.IH" [OF Some True] d show ?thesis
        by (simp add: skipWhitespace_skip advance_text advance_position)
    next
      case False
      with Some d show ?thesis by (simp add: skipWhitespace_stop)
    qed
  qed
qed

lemma tokenize_spans_EOF:
  "nextToken t = (tok, t') \<Longrightarrow> tk_type tok = EOF \<Longrightarrow>
   tokenize_spans t spans = spans @ [(tok, t_position (skipWhitespace t), t_position t')]"
  by (subst tokenize_spans.simps) (simp add: Let_def)

lemma tokenize_spans_step:
  "nextToken t = (tok, t') \<Longrightarrow> tk_type tok \<noteq> EOF \<Longrightarrow>
   tokenize_spans t spans =
     tokenize_spans t' (spans @ [(tok, t_position (skipWhitespace t), t_position t')])"
  by (subst tokenize_spans.simps) (simp add: Let_def)

lemma tokenize_spans_run:
  assumes "located t" and "t_position t \<le> length (t_text t)"
  shows "\<exists>new. tokenize_spans t spans = spans @ new \<and>
           tokenize_loop t tokens = tokens @ map fst new \<and>
           list_all (span_ok (t_text t)) new \<and> linked (t_text t) (t_position t) new \<and>
           sorted_wrt (<) (map (fst \<circ> snd) new) \<and>
           list_all (\<lambda>x. t_position t \<le> fst (snd x)) new"
  using assms
proof (induction t spans arbitrary: tokens rule: tokenize_spans.induct)
  case (1 t spans)
  obtain tok t' where n: "nextToken t = (tok, t')" by (cases "nextToken t")
  define t1 where "t1 = skipWhitespace t"
  have a1: "advanced t t1" unfolding t1_def by (rule skipWhitespace_advanced)
  have tx1: "t_text t1 = t_text t" by (rule advanced_text [OF a1])
  have l1: "located t1" by (rule located_advanced [OF a1 "1.prems"(1)])
  have b1: "t_position t1 \<le> length (t_text t)" by (rule advanced_bound [OF a1 "1.prems"(2)])
  have p1: "t_position t \<le> t_position t1" by (rule advanced_position [OF a1])
  have sk: "t_position t1 = t_position t + length (takeWhile is_space (drop (t_position t) (t_text t)))"
    unfolding t1_def by (rule skipWhitespace_position)
  from nextToken_cursor [OF n]
  have lc: "tk_line tok = line_of (t_text t) (t_position t1)"
    "tk_column tok = column_of (t_text t) (t_position t1)"
    using l1 tx1 by (simp_all add: t1_def located_def)
  show ?case
  proof (cases "current t1")
    case None
    with nextToken_cursor [OF n] have e: "tk_type tok = EOF" and t': "t' = t1"
      by (simp_all add: t1_def)
    from None b1 tx1 have "t_position t1 = length (t_text t)"
      by (simp add: current_def split: if_splits)
    let ?new = "[(tok, t_position t1, t_position t')]"
    from lc e t' \<open>t_position t1 = length (t_text t)\<close>
    have "span_ok (t_text t) (tok, t_position t1, t_position t')"
      by (simp add: token_at_def)
    then have 3: "list_all (span_ok (t_text t)) ?new" by simp
    have 1: "tokenize_spans t spans = spans @ ?new"
      unfolding t1_def by (rule tokenize_spans_EOF [OF n e])
    have 2: "tokenize_loop t tokens = tokens @ map fst ?new"
      using tokenize_loop_EOF [OF n e] by simp
    have 4: "linked (t_text t) (t_position t) ?new"
      using sk by simp
    have 5: "sorted_wrt (<) (map (fst \<circ> snd) ?new)" by simp
    have 6: "list_all (\<lambda>x. t_position t \<le> fst (snd x)) ?new"
      using p1 by simp
    from 1 2 3 4 5 6 show ?thesis by blast
  next
    case (Some c)
    with nextToken_cursor [OF n] have ne: "tk_type tok \<noteq> EOF"
      and a2: "advanced (advance t1) t'" by (simp_all add: t1_def)
    have lt: "t_position t1 < length (t_text t)" and c: "t_text t ! t_position t1 = c"
      using Some tx1 by (auto simp: current_def split: if_splits)
    have "\<not> is_space c" using Some unfolding t1_def by (rule skipWhitespace_current)
    moreover have "begins tok c" using n Some unfolding t1_def by (rule nextToken_begins)
    ultimately have ta: "token_at (t_text t) tok (t_position t1)"
      using lc ne lt c by (simp add: token_at_def)
    have a3: "advanced t1 t'" using Some a2 by (rule advanced_step)
    have tx': "t_text t' = t_text t" using advanced_text [OF a3] tx1 by simp
    have l': "located t'" by (rule located_advanced [OF a3 l1])
    have b': "t_position t' \<le> length (t_text t')"
      using advanced_bound [OF a3] b1 tx1 tx' by simp
    have p': "t_position t1 < t_position t'" using Some a2 by (rule advanced_step_lt)
    have ok: "span_ok (t_text t) (tok, t_position t1, t_position t')"
      using ta ne p' b' tx' by simp
    from "1.IH" [OF refl n [symmetric] refl refl ne l' b', of "tokens @ [tok]"]
    obtain new where
      r: "tokenize_spans t' (spans @ [(tok, t_position (skipWhitespace t), t_position t')]) =
            (spans @ [(tok, t_position (skipWhitespace t), t_position t')]) @ new"
        "tokenize_loop t' (tokens @ [tok]) = (tokens @ [tok]) @ map fst new"
        "list_all (span_ok (t_text t')) new" "linked (t_text t') (t_position t') new"
        "sorted_wrt (<) (map (fst \<circ> snd) new)"
        "list_all (\<lambda>x. t_position t' \<le> fst (snd x)) new"
      by blast
    let ?new = "(tok, t_position t1, t_position t') # new"
    have "tokenize_spans t spans = spans @ ?new"
      using tokenize_spans_step [OF n ne, of spans] r(1) by (simp add: t1_def)
    moreover have "tokenize_loop t tokens = tokens @ map fst ?new"
      using tokenize_loop_step [OF n ne, of tokens] r(2) by simp
    moreover have "list_all (span_ok (t_text t)) ?new"
      using ok r(3) tx' by simp
    moreover have "linked (t_text t) (t_position t) ?new"
      using sk r(4) tx' by simp
    moreover have "sorted_wrt (<) (map (fst \<circ> snd) ?new)"
      using r(5,6) p' by (auto simp: list_all_iff)
    moreover have "list_all (\<lambda>x. t_position t \<le> fst (snd x)) ?new"
      using r(6) p' p1 by (auto simp: list_all_iff)
    ultimately show ?thesis by blast
  qed
qed

subsection \<open>The bound only matters when it is reached\<close>

lemma braces_mono:
  assumes "\<And>p r. body p = Some r \<Longrightarrow> body' p = Some r"
    and "braces body tokens position = Some r"
  shows "braces body' tokens position = Some r"
proof (cases "expect tokens position PUNCTUATION (Some (js ''{''))")
  case (Inl e)
  with assms(2) show ?thesis by (simp add: braces_def)
next
  case (Inr a)
  obtain tok p1 where a: "a = (tok, p1)" by (cases a)
  from assms(2) Inr a obtain rb where rb: "body p1 = Some rb"
    by (cases "body p1") (auto simp: braces_def)
  from assms(1) [OF rb] have "body' p1 = Some rb" .
  with assms(2) Inr a rb show ?thesis by (simp add: braces_def)
qed

lemma found_mono:
  assumes "\<And>r. x = Some r \<Longrightarrow> y = Some r" and "found x = Some r"
  shows "found y = Some r"
  using assms by (cases x) (auto simp: found_def)

lemma map_option_mono:
  assumes "\<And>r. x = Some r \<Longrightarrow> y = Some r" and "map_option f x = Some r"
  shows "map_option f y = Some r"
  using assms by (cases x) auto

lemma parsePackage_mono:
  assumes b: "\<And>p r. body p = Some r \<Longrightarrow> body' p = Some r"
    and "parsePackage body tokens position = Some r"
  shows "parsePackage body' tokens position = Some r"
proof -
  have br: "\<And>p z. braces body tokens p = Some z \<Longrightarrow> braces body' tokens p = Some z"
    by (rule braces_mono [where body = body and body' = body']) (rule b)
  show ?thesis
    using assms(2) unfolding parsePackage_def Let_def
    by (auto split: sum.splits prod.splits if_splits dest!: br)
qed

lemma parsePart_mono:
  assumes b: "\<And>p r. body p = Some r \<Longrightarrow> body' p = Some r"
    and "parsePart body tokens position = Some r"
  shows "parsePart body' tokens position = Some r"
proof -
  have br: "\<And>p z. braces body tokens p = Some z \<Longrightarrow> braces body' tokens p = Some z"
    by (rule braces_mono [where body = body and body' = body']) (rule b)
  show ?thesis
    using assms(2) unfolding parsePart_def Let_def
    by (auto split: sum.splits prod.splits if_splits dest!: br)
qed

lemma parseRequirement_mono:
  assumes b: "\<And>p r. body p = Some r \<Longrightarrow> body' p = Some r"
    and "parseRequirement body tokens position = Some r"
  shows "parseRequirement body' tokens position = Some r"
proof -
  have br: "\<And>p z. braces body tokens p = Some z \<Longrightarrow> braces body' tokens p = Some z"
    by (rule braces_mono [where body = body and body' = body']) (rule b)
  show ?thesis
    using assms(2) unfolding parseRequirement_def Let_def
    by (auto split: sum.splits prod.splits if_splits dest!: br)
qed

lemma parseUseCase_mono:
  assumes b: "\<And>p r. body p = Some r \<Longrightarrow> body' p = Some r"
    and "parseUseCase body tokens position = Some r"
  shows "parseUseCase body' tokens position = Some r"
proof -
  have br: "\<And>p z. braces body tokens p = Some z \<Longrightarrow> braces body' tokens p = Some z"
    by (rule braces_mono [where body = body and body' = body']) (rule b)
  show ?thesis
    using assms(2) unfolding parseUseCase_def Let_def
    by (auto split: sum.splits prod.splits if_splits dest!: br)
qed

lemma dispatch_mono:
  assumes b: "\<And>p r. body p = Some r \<Longrightarrow> body' p = Some r"
    and "dispatch body v tokens position = Some r"
  shows "dispatch body' v tokens position = Some r"
proof -
  have 1: "\<And>r. parsePackage body tokens position = Some r \<Longrightarrow>
             parsePackage body' tokens position = Some r"
    by (rule parsePackage_mono [where body = body and body' = body']) (rule b)
  have 2: "\<And>r. parsePart body tokens position = Some r \<Longrightarrow>
             parsePart body' tokens position = Some r"
    by (rule parsePart_mono [where body = body and body' = body']) (rule b)
  have 3: "\<And>r. parseRequirement body tokens position = Some r \<Longrightarrow>
             parseRequirement body' tokens position = Some r"
    by (rule parseRequirement_mono [where body = body and body' = body']) (rule b)
  have 4: "\<And>r. parseUseCase body tokens position = Some r \<Longrightarrow>
             parseUseCase body' tokens position = Some r"
    by (rule parseUseCase_mono [where body = body and body' = body']) (rule b)
  have f1: "found (parsePackage body tokens position) = Some r \<Longrightarrow>
            found (parsePackage body' tokens position) = Some r"
    by (rule found_mono [OF 1])
  have f2: "found (parsePart body tokens position) = Some r \<Longrightarrow>
            found (parsePart body' tokens position) = Some r"
    by (rule found_mono [OF 2])
  have f3: "found (parseRequirement body tokens position) = Some r \<Longrightarrow>
            found (parseRequirement body' tokens position) = Some r"
    by (rule found_mono [OF 3])
  have f4: "found (parseUseCase body tokens position) = Some r \<Longrightarrow>
            found (parseUseCase body' tokens position) = Some r"
    by (rule found_mono [OF 4])
  show ?thesis
  proof (cases "v = Str (js ''package'')")
    case True
    with assms(2) f1 f2 f3 f4  show ?thesis
      by (simp add: dispatch_def)
  next
    case n0: False
    show ?thesis
    proof (cases "v = Str (js ''part'')")
      case True
      with assms(2) f1 f2 f3 f4 n0 show ?thesis
        by (simp add: dispatch_def)
    next
      case n1: False
      show ?thesis
      proof (cases "v = Str (js ''attribute'')")
        case True
        with assms(2) f1 f2 f3 f4 n0 n1 show ?thesis
          by (simp add: dispatch_def)
      next
        case n2: False
        show ?thesis
        proof (cases "v = Str (js ''port'')")
          case True
          with assms(2) f1 f2 f3 f4 n0 n1 n2 show ?thesis
            by (simp add: dispatch_def)
        next
          case n3: False
          show ?thesis
          proof (cases "v = Str (js ''connection'')")
            case True
            with assms(2) f1 f2 f3 f4 n0 n1 n2 n3 show ?thesis
              by (simp add: dispatch_def)
          next
            case n4: False
            show ?thesis
            proof (cases "v = Str (js ''requirement'')")
              case True
              with assms(2) f1 f2 f3 f4 n0 n1 n2 n3 n4 show ?thesis
                by (simp add: dispatch_def)
            next
              case n5: False
              show ?thesis
              proof (cases "v = Str (js ''use'')")
                case True
                with assms(2) f1 f2 f3 f4 n0 n1 n2 n3 n4 n5 show ?thesis
                  by (simp add: dispatch_def)
              next
                case n6: False
                show ?thesis
                  using assms(2) n0 n1 n2 n3 n4 n5 n6 by (simp add: dispatch_def)
              qed
            qed
          qed
        qed
      qed
    qed
  qed
qed

lemma parseElement_parseBody_Suc:
  "(parseElement n tokens position = Some r \<longrightarrow> parseElement (Suc n) tokens position = Some r) \<and>
   (parseBody n tokens position nodes = Some rb \<longrightarrow> parseBody (Suc n) tokens position nodes = Some rb)"
proof (induction n arbitrary: position nodes r rb)
  case 0
  show ?case by simp
next
  case (Suc n)
  have body: "\<And>p r. parseBody n tokens p [] = Some r \<Longrightarrow> parseBody (Suc n) tokens p [] = Some r"
    using Suc.IH by blast
  have el: "\<And>p r. parseElement n tokens p = Some r \<Longrightarrow> parseElement (Suc n) tokens p = Some r"
    using Suc.IH by blast
  have bd: "\<And>p ns r. parseBody n tokens p ns = Some r \<Longrightarrow> parseBody (Suc n) tokens p ns = Some r"
    using Suc.IH by blast
  have "parseElement (Suc (Suc n)) tokens position = Some r"
    if h: "parseElement (Suc n) tokens position = Some r"
  proof (cases "parser_current tokens position")
    case None
    with h show ?thesis by simp
  next
    case (Some token)
    show ?thesis
    proof (cases "tk_type token \<noteq> EOF \<and> tk_type token = KEYWORD")
      case False
      with h Some show ?thesis by auto
    next
      case True
      with h Some have "dispatch (\<lambda>p. parseBody n tokens p []) (tk_value token) tokens position = Some r"
        by simp
      then have "dispatch (\<lambda>p. parseBody (Suc n) tokens p []) (tk_value token) tokens position = Some r"
        by (rule dispatch_mono [where body = "\<lambda>p. parseBody n tokens p []", rotated]) (rule body)
      with True Some show ?thesis by simp
    qed
  qed
  moreover have "parseBody (Suc (Suc n)) tokens position nodes = Some rb"
    if h: "parseBody (Suc n) tokens position nodes = Some rb"
  proof (cases "parser_current tokens position")
    case None
    with h show ?thesis by simp
  next
    case (Some token)
    show ?thesis
    proof (cases "tk_value token = Str (js ''}'')")
      case True
      with h Some show ?thesis by simp
    next
      case False
      from h Some False obtain re where re: "parseElement n tokens position = Some re"
        by (cases "parseElement n tokens position") auto
      note re' = el [OF re]
      show ?thesis
      proof (cases re)
        case (Inl e)
        with h Some False re re' show ?thesis by simp
      next
        case (Inr a)
        obtain element p where a: "a = (element, p)" by (cases a)
        from h Some False re Inr a
        have "parseBody n tokens p (case element of None \<Rightarrow> nodes | Some node \<Rightarrow> nodes @ [node]) = Some rb"
          by simp
        from bd [OF this] Some False re' Inr a show ?thesis by simp
      qed
    qed
  qed
  ultimately show ?case by blast
qed

declare parseElement.simps(2) [simp del]
declare parseBody.simps(2) [simp del]

lemma parseElement_Suc:
  "parseElement n tokens position = Some r \<Longrightarrow> parseElement (Suc n) tokens position = Some r"
  using parseElement_parseBody_Suc by blast

lemma parseBody_Suc:
  "parseBody n tokens position nodes = Some r \<Longrightarrow> parseBody (Suc n) tokens position nodes = Some r"
  using parseElement_parseBody_Suc by blast

lemma parseElement_mono:
  "parseElement n tokens position = Some r \<Longrightarrow> parseElement (n + k) tokens position = Some r"
  by (induction k) (simp_all add: parseElement_Suc)

lemma parseBody_mono:
  "parseBody n tokens position nodes = Some r \<Longrightarrow> parseBody (n + k) tokens position nodes = Some r"
  by (induction k) (simp_all add: parseBody_Suc)

lemma parse_loop_Suc:
  "parse_loop n tokens position ast = Some r \<Longrightarrow> parse_loop (Suc n) tokens position ast = Some r"
proof (induction n arbitrary: position ast)
  case 0
  then show ?case by simp
next
  case (Suc n)
  show ?case
  proof (cases "parser_current tokens position")
    case None
    with Suc.prems show ?thesis by simp
  next
    case (Some token)
    show ?thesis
    proof (cases "tk_type token = EOF")
      case True
      with Suc.prems Some show ?thesis by simp
    next
      case False
      from Suc.prems Some False obtain re where re: "parseElement n tokens position = Some re"
        by (cases "parseElement n tokens position") auto
      then have re': "parseElement (Suc n) tokens position = Some re"
        by (rule parseElement_Suc)
      show ?thesis
      proof (cases re)
        case (Inl e)
        with Suc.prems Some False re re' show ?thesis by simp
      next
        case (Inr a)
        obtain element p where a: "a = (element, p)" by (cases a)
        from Suc.prems Some False re Inr a
        have "parse_loop n tokens p (case element of None \<Rightarrow> ast | Some node \<Rightarrow> addChild ast node) = Some r"
          by simp
        from Suc.IH [OF this] Some False re' Inr a show ?thesis by simp
      qed
    qed
  qed
qed

declare parse_loop.simps(2) [simp del]

lemma parse_loop_mono:
  "parse_loop n tokens position ast = Some r \<Longrightarrow> parse_loop (n + k) tokens position ast = Some r"
  by (induction k) (simp_all add: parse_loop_Suc)

lemma parse_mono: "parse n tokens = Some r \<Longrightarrow> parse (n + k) tokens = Some r"
  unfolding parse_def
  by (cases "parse_loop n tokens 0 (ASTNode ''root'' [] [])")
     (auto dest: parse_loop_mono [where k = k])

subsection \<open>Token sequences of some texts\<close>

lemma tokens_rbrace:
  "tokenize (js ''}'') =
     [\<lparr>tk_type = PUNCTUATION, tk_value = Str (js ''}''), tk_line = 1, tk_column = 1\<rparr>,
      \<lparr>tk_type = EOF, tk_value = Null, tk_line = 1, tk_column = 2\<rparr>]"
  by code_simp

lemma tokens_open_package:
  "tokenize (js ''package P {'') =
     [\<lparr>tk_type = KEYWORD, tk_value = Str (js ''package''), tk_line = 1, tk_column = 1\<rparr>,
      \<lparr>tk_type = IDENTIFIER, tk_value = Str (js ''P''), tk_line = 1, tk_column = 9\<rparr>,
      \<lparr>tk_type = PUNCTUATION, tk_value = Str (js ''{''), tk_line = 1, tk_column = 11\<rparr>,
      \<lparr>tk_type = EOF, tk_value = Null, tk_line = 1, tk_column = 12\<rparr>]"
  by code_simp

lemma tokens_connection:
  "tokenize (js ''connection c : a B.c;'') =
     [\<lparr>tk_type = KEYWORD, tk_value = Str (js ''connection''), tk_line = 1, tk_column = 1\<rparr>,
      \<lparr>tk_type = IDENTIFIER, tk_value = Str (js ''c''), tk_line = 1, tk_column = 12\<rparr>,
      \<lparr>tk_type = PUNCTUATION, tk_value = Str (js '':''), tk_line = 1, tk_column = 14\<rparr>,
      \<lparr>tk_type = IDENTIFIER, tk_value = Str (js ''a''), tk_line = 1, tk_column = 16\<rparr>,
      \<lparr>tk_type = IDENTIFIER, tk_value = Str (js ''B''), tk_line = 1, tk_column = 18\<rparr>,
      \<lparr>tk_type = PUNCTUATION, tk_value = Str (js ''.''), tk_line = 1, tk_column = 19\<rparr>,
      \<lparr>tk_type = IDENTIFIER, tk_value = Str (js ''c''), tk_line = 1, tk_column = 20\<rparr>,
      \<lparr>tk_type = PUNCTUATION, tk_value = Str (js '';''), tk_line = 1, tk_column = 21\<rparr>,
      \<lparr>tk_type = EOF, tk_value = Null, tk_line = 1, tk_column = 22\<rparr>]"
  by code_simp

subsection \<open>Loops that do not move the cursor\<close>

lemma skip_loop_stop:
  "parser_current tokens position = Some token \<Longrightarrow>
   tk_value token = Str (js '';'') \<or> tk_value token = Str (js ''}'') \<Longrightarrow>
   skip_loop tokens position = position"
  by (subst skip_loop.simps) auto

lemma skip_loop_end: "parser_current tokens position = None \<Longrightarrow> skip_loop tokens position = position"
  by (subst skip_loop.simps) simp

lemma skip_loop_step:
  "parser_current tokens position = Some token \<Longrightarrow>
   tk_value token \<noteq> Str (js '';'') \<Longrightarrow> tk_value token \<noteq> Str (js ''}'') \<Longrightarrow>
   skip_loop tokens position = skip_loop tokens (position + 1)"
  by (subst skip_loop.simps) simp

lemma js_rbrace_semicolon: "js ''}'' \<noteq> js '';''"
  by (simp add: js_def)

lemma parseGenericElement_rbrace:
  assumes "parser_current tokens position = Some token"
    and "tk_type token \<noteq> IDENTIFIER" and "tk_value token = Str (js ''}'')"
  shows "parseGenericElement tokens position = (Some (ASTNode ''generic'' [] []), position)"
  using assms
  by (simp add: parseGenericElement_def capture_def skip_loop_stop skip_if_def
                current_value_def js_rbrace_semicolon)

lemma parse_loop_stuck:
  assumes "parser_current tokens position = Some token"
    and "tk_type token = PUNCTUATION \<or> tk_type token = STRING"
    and "tk_value token = Str (js ''}'')"
  shows "parse_loop n tokens position ast = None"
proof (induction n arbitrary: ast)
  case 0
  show ?case by simp
next
  case (Suc n)
  have g: "parseGenericElement tokens position = (Some (ASTNode ''generic'' [] []), position)"
    using assms by (intro parseGenericElement_rbrace) auto
  show ?case
  proof (cases n)
    case 0
    with assms show ?thesis by (auto simp: parse_loop.simps(2))
  next
    case (Suc m)
    have "parseElement n tokens position = Some (Inr (Some (ASTNode ''generic'' [] []), position))"
      using assms g Suc by (auto simp: parseElement.simps(2))
    with assms Suc.IH show ?thesis by (auto simp: parse_loop.simps(2))
  qed
qed

lemma parseBody_at_EOF:
  assumes "parser_current tokens position = Some token"
    and "tk_type token = EOF" and "tk_value token \<noteq> Str (js ''}'')"
  shows "parseBody n tokens position nodes = None"
proof (induction n)
  case 0
  show ?case by simp
next
  case (Suc n)
  show ?case
  proof (cases n)
    case 0
    with assms show ?thesis by (simp add: parseBody.simps(2))
  next
    case (Suc m)
    with assms have "parseElement n tokens position = Some (Inr (None, position))"
      by (simp add: parseElement.simps(2))
    with assms Suc.IH show ?thesis by (simp add: parseBody.simps(2))
  qed
qed

subsection \<open>Skipping\<close>

lemma skip_loop_ge: "position \<le> skip_loop tokens position"
proof (induction tokens position rule: skip_loop.induct)
  case (1 tokens position)
  show ?case
  proof (cases "parser_current tokens position")
    case None
    then show ?thesis by (simp add: skip_loop_end)
  next
    case (Some token)
    show ?thesis
    proof (cases "tk_value token \<noteq> Str (js '';'') \<and> tk_value token \<noteq> Str (js ''}'')")
      case True
      with Some "1.IH" [of token] show ?thesis by (simp add: skip_loop_step)
    next
      case False
      with Some show ?thesis by (simp add: skip_loop_stop)
    qed
  qed
qed

lemma skip_if_ge: "position \<le> skip_if tokens s position"
  by (simp add: skip_if_def)

lemma keyword_not_delimiter: "js '';'' \<notin> set KEYWORDS" "js ''}'' \<notin> set KEYWORDS"
  by code_simp+

lemma tokens_block:
  "tokenize (js ''block B;'') =
     [\<lparr>tk_type = KEYWORD, tk_value = Str (js ''block''), tk_line = 1, tk_column = 1\<rparr>,
      \<lparr>tk_type = IDENTIFIER, tk_value = Str (js ''B''), tk_line = 1, tk_column = 7\<rparr>,
      \<lparr>tk_type = PUNCTUATION, tk_value = Str (js '';''), tk_line = 1, tk_column = 8\<rparr>,
      \<lparr>tk_type = EOF, tk_value = Null, tk_line = 1, tk_column = 9\<rparr>]"
  by code_simp

subsection \<open>The cursor of the parser\<close>

lemma expect_Inr: "expect tokens p ty v = Inr (tok, p') \<Longrightarrow> p' = p + 1"
  by (auto simp: expect_def split: option.splits if_splits)

lemma capture_ge: "capture tokens tys k (props, p) = (props', p') \<Longrightarrow> p \<le> p'"
  by (auto simp: capture_def split: option.splits if_splits)

lemma parseAttribute_ge: "parseAttribute tokens p = Inr (node, p') \<Longrightarrow> p \<le> p'"
proof -
  assume a: "parseAttribute tokens p = Inr (node, p')"
  then obtain tok p1 where e: "expect tokens p KEYWORD (Some (js ''attribute'')) = Inr (tok, p1)"
    by (cases "expect tokens p KEYWORD (Some (js ''attribute''))") (auto simp: parseAttribute_def)
  obtain props1 p2 where c1: "capture tokens [IDENTIFIER] ''name'' ([], p1) = (props1, p2)"
    by (cases "capture tokens [IDENTIFIER] ''name'' ([], p1)")
  obtain props2 p3 where c2:
    "(if current_value tokens p2 = Some (Str (js '':''))
      then capture tokens [IDENTIFIER] ''type'' (props1, p2 + 1) else (props1, p2)) = (props2, p3)"
    by (cases "if current_value tokens p2 = Some (Str (js '':''))
      then capture tokens [IDENTIFIER] ''type'' (props1, p2 + 1) else (props1, p2)")
  obtain props3 p4 where c3:
    "(if current_value tokens p3 = Some (Str (js ''=''))
      then capture tokens [NUMBER, STRING] ''defaultValue'' (props2, p3 + 1) else (props2, p3)) = (props3, p4)"
    by (cases "if current_value tokens p3 = Some (Str (js ''=''))
      then capture tokens [NUMBER, STRING] ''defaultValue'' (props2, p3 + 1) else (props2, p3)")
  have "p' = skip_if tokens '';'' p4"
    using a e c1 c2 c3 by (simp add: parseAttribute_def)
  moreover have "p \<le> p1" using expect_Inr [OF e] by simp
  moreover have "p1 \<le> p2" using c1 by (rule capture_ge)
  moreover have "p2 \<le> p3" using c2 by (auto split: if_splits dest: capture_ge)
  moreover have "p3 \<le> p4" using c3 by (auto split: if_splits dest: capture_ge)
  moreover have "p4 \<le> skip_if tokens '';'' p4" by (rule skip_if_ge)
  ultimately show ?thesis by simp
qed

lemma parsePort_ge: "parsePort tokens p = Inr (node, p') \<Longrightarrow> p \<le> p'"
proof -
  assume a: "parsePort tokens p = Inr (node, p')"
  then obtain tok p1 where e: "expect tokens p KEYWORD (Some (js ''port'')) = Inr (tok, p1)"
    by (cases "expect tokens p KEYWORD (Some (js ''port''))") (auto simp: parsePort_def)
  obtain props1 p2 where c1: "capture tokens [IDENTIFIER] ''name'' ([], p1) = (props1, p2)"
    by (cases "capture tokens [IDENTIFIER] ''name'' ([], p1)")
  obtain props2 p3 where c2:
    "(if current_value tokens p2 = Some (Str (js '':''))
      then capture tokens [IDENTIFIER] ''type'' (props1, p2 + 1) else (props1, p2)) = (props2, p3)"
    by (cases "if current_value tokens p2 = Some (Str (js '':''))
      then capture tokens [IDENTIFIER] ''type'' (props1, p2 + 1) else (props1, p2)")
  have "p' = skip_if tokens '';'' p3"
    using a e c1 c2 by (simp add: parsePort_def)
  moreover have "p \<le> p1" using expect_Inr [OF e] by simp
  moreover have "p1 \<le> p2" using c1 by (rule capture_ge)
  moreover have "p2 \<le> p3" using c2 by (auto split: if_splits dest: capture_ge)
  moreover have "p3 \<le> skip_if tokens '';'' p3" by (rule skip_if_ge)
  ultimately show ?thesis by simp
qed

lemma parseConnection_ge: "parseConnection tokens p = Inr (node, p') \<Longrightarrow> p \<le> p'"
proof -
  assume a: "parseConnection tokens p = Inr (node, p')"
  then obtain tok p1 where e: "expect tokens p KEYWORD (Some (js ''connection'')) = Inr (tok, p1)"
    by (cases "expect tokens p KEYWORD (Some (js ''connection''))") (auto simp: parseConnection_def)
  obtain props1 p2 where c1: "capture tokens [IDENTIFIER] ''name'' ([], p1) = (props1, p2)"
    by (cases "capture tokens [IDENTIFIER] ''name'' ([], p1)")
  obtain propsf pf where cf: "capture tokens [IDENTIFIER] ''from'' (props1, p2 + 1) = (propsf, pf)"
    by (cases "capture tokens [IDENTIFIER] ''from'' (props1, p2 + 1)")
  obtain props2 p3 where c2:
    "(if current_value tokens p2 = Some (Str (js '':''))
      then (if current_type tokens (p2 + 1) = Some IDENTIFIER
            then capture tokens [IDENTIFIER] ''to'' (propsf, pf)
            else (props1, p2 + 1))
      else (props1, p2)) = (props2, p3)"
    by (cases "if current_value tokens p2 = Some (Str (js '':''))
      then (if current_type tokens (p2 + 1) = Some IDENTIFIER
            then capture tokens [IDENTIFIER] ''to'' (propsf, pf)
            else (props1, p2 + 1))
      else (props1, p2)")
  have "p' = skip_if tokens '';'' p3"
    using a e c1 c2 cf by (auto simp: parseConnection_def split: if_splits)
  moreover have "p \<le> p1" using expect_Inr [OF e] by simp
  moreover have "p1 \<le> p2" using c1 by (rule capture_ge)
  moreover have "p2 + 1 \<le> pf" using cf by (rule capture_ge)
  then have "p2 \<le> p3" using c2 by (auto split: if_splits dest: capture_ge)
  moreover have "p3 \<le> skip_if tokens '';'' p3" by (rule skip_if_ge)
  ultimately show ?thesis by simp
qed

lemma parseGenericElement_ge: "parseGenericElement tokens p = (element, p') \<Longrightarrow> p \<le> p'"
proof -
  assume a: "parseGenericElement tokens p = (element, p')"
  obtain props p1 where c1: "capture tokens [IDENTIFIER] ''name'' ([], p) = (props, p1)"
    by (cases "capture tokens [IDENTIFIER] ''name'' ([], p)")
  have "p' = p \<or> p' = skip_if tokens '';'' (skip_loop tokens p1)"
    using a c1 by (auto simp: parseGenericElement_def split: option.splits)
  moreover have "p \<le> p1" using c1 by (rule capture_ge)
  moreover have "p1 \<le> skip_loop tokens p1" by (rule skip_loop_ge)
  moreover have "skip_loop tokens p1 \<le> skip_if tokens '';'' (skip_loop tokens p1)" by (rule skip_if_ge)
  ultimately show ?thesis by auto
qed

lemma braces_ge:
  assumes b: "\<And>q nodes q'. body q = Some (Inr (nodes, q')) \<Longrightarrow> q \<le> q'"
    and r: "braces body tokens p = Some (Inr (nodes, p'))"
  shows "p \<le> p'"
proof -
  from r obtain tok p1 where e1: "expect tokens p PUNCTUATION (Some (js ''{'')) = Inr (tok, p1)"
    by (cases "expect tokens p PUNCTUATION (Some (js ''{''))") (auto simp: braces_def)
  from r e1 obtain ns p2 where bd: "body p1 = Some (Inr (ns, p2))"
    by (auto simp: braces_def split: option.splits sum.splits)
  from r e1 bd obtain tok' where e2: "expect tokens p2 PUNCTUATION (Some (js ''}'')) = Inr (tok', p')"
    by (auto simp: braces_def split: sum.splits)
  from expect_Inr [OF e1] b [OF bd] expect_Inr [OF e2] show ?thesis by simp
qed

lemma headed_ge:
  assumes b: "\<And>q nodes q'. body q = Some (Inr (nodes, q')) \<Longrightarrow> q \<le> q'"
  shows "parsePackage body tokens p = Some (Inr (node, p')) \<Longrightarrow> p \<le> p'"
    and "parsePart body tokens p = Some (Inr (node, p')) \<Longrightarrow> p \<le> p'"
    and "parseRequirement body tokens p = Some (Inr (node, p')) \<Longrightarrow> p \<le> p'"
    and "parseUseCase body tokens p = Some (Inr (node, p')) \<Longrightarrow> p \<le> p'"
proof -
  have br: "\<And>q ns q'. braces body tokens q = Some (Inr (ns, q')) \<Longrightarrow> q \<le> q'"
    by (rule braces_ge [where body = body]) (rule b)
  have mp: "q \<le> p'"
    if "braces body tokens q = Some z" "map_sum id (map_prod f id) z = Inr (x, p')"
    for f :: "ASTNode list \<Rightarrow> ASTNode" and q x z
  proof -
    from that obtain ns where "braces body tokens q = Some (Inr (ns, p'))"
      by (cases z) auto
    then show ?thesis by (rule br)
  qed
  show "p \<le> p'" if a: "parsePackage body tokens p = Some (Inr (node, p'))"
  proof -
    from a obtain tok p1 where e: "expect tokens p KEYWORD (Some (js ''package'')) = Inr (tok, p1)"
      by (cases "expect tokens p KEYWORD (Some (js ''package''))") (auto simp: parsePackage_def)
    obtain props p2 where c1: "capture tokens [IDENTIFIER] ''name'' ([], p1) = (props, p2)"
      by (cases "capture tokens [IDENTIFIER] ''name'' ([], p1)")
    have "p2 \<le> p'"
      using a e c1 by (auto simp: parsePackage_def split: if_splits dest: mp)
    with expect_Inr [OF e] capture_ge [OF c1] show ?thesis by simp
  qed
  show "p \<le> p'" if a: "parsePart body tokens p = Some (Inr (node, p'))"
  proof -
    from a obtain tok p1 where e: "expect tokens p KEYWORD (Some (js ''part'')) = Inr (tok, p1)"
      by (cases "expect tokens p KEYWORD (Some (js ''part''))") (auto simp: parsePart_def)
    obtain props1 p2 where c1: "capture tokens [IDENTIFIER] ''name'' ([], p1) = (props1, p2)"
      by (cases "capture tokens [IDENTIFIER] ''name'' ([], p1)")
    obtain props p3 where c2:
      "(if current_value tokens p2 = Some (Str (js ''specializes''))
        then capture tokens [IDENTIFIER] ''specializes'' (props1, p2 + 1)
        else (props1, p2)) = (props, p3)"
      by (cases "if current_value tokens p2 = Some (Str (js ''specializes''))
        then capture tokens [IDENTIFIER] ''specializes'' (props1, p2 + 1)
        else (props1, p2)")
    have "p2 \<le> p3" using c2 by (auto split: if_splits dest: capture_ge)
    moreover have "p3 \<le> p'"
      using a e c1 c2 skip_if_ge [of p3 tokens "'';''"]
      by (auto simp: parsePart_def split: if_splits dest: mp)
    ultimately show ?thesis using expect_Inr [OF e] capture_ge [OF c1] by simp
  qed
  show "p \<le> p'" if a: "parseRequirement body tokens p = Some (Inr (node, p'))"
  proof -
    from a obtain tok p1 where e: "expect tokens p KEYWORD (Some (js ''requirement'')) = Inr (tok, p1)"
      by (cases "expect tokens p KEYWORD (Some (js ''requirement''))") (auto simp: parseRequirement_def)
    obtain props p2 where c1: "capture tokens [IDENTIFIER] ''name'' ([], p1) = (props, p2)"
      by (cases "capture tokens [IDENTIFIER] ''name'' ([], p1)")
    have "p2 \<le> p'"
      using a e c1 by (auto simp: parseRequirement_def split: if_splits dest: mp)
    with expect_Inr [OF e] capture_ge [OF c1] show ?thesis by simp
  qed
  show "p \<le> p'" if a: "parseUseCase body tokens p = Some (Inr (node, p'))"
  proof -
    from a obtain tok p1 where e: "expect tokens p KEYWORD (Some (js ''use'')) = Inr (tok, p1)"
      by (cases "expect tokens p KEYWORD (Some (js ''use''))") (auto simp: parseUseCase_def)
    obtain props p2 where c1:
      "capture tokens [IDENTIFIER] ''name'' ([], skip_if tokens ''case'' p1) = (props, p2)"
      by (cases "capture tokens [IDENTIFIER] ''name'' ([], skip_if tokens ''case'' p1)")
    have "p2 \<le> p'"
      using a e c1 by (auto simp: parseUseCase_def split: if_splits dest: mp)
    with expect_Inr [OF e] capture_ge [OF c1] skip_if_ge [of p1 tokens "''case''"]
    show ?thesis by simp
  qed
qed

lemma found_Inr: "found r = Some (Inr (element, p')) \<Longrightarrow> \<exists>node. r = Some (Inr (node, p'))"
  by (cases r) (auto simp: found_def map_sum_def split: sum.splits)

lemma dispatch_ge:
  assumes b: "\<And>q nodes q'. body q = Some (Inr (nodes, q')) \<Longrightarrow> q \<le> q'"
    and d: "dispatch body v tokens p = Some (Inr (element, p'))"
  shows "p \<le> p'"
proof -
  have h1: "p \<le> p'" if "parsePackage body tokens p = Some (Inr (node, p'))" for node
    using that by (rule headed_ge(1) [where body = body, rotated]) (rule b)
  have h2: "p \<le> p'" if "parsePart body tokens p = Some (Inr (node, p'))" for node
    using that by (rule headed_ge(2) [where body = body, rotated]) (rule b)
  have h3: "p \<le> p'" if "parseRequirement body tokens p = Some (Inr (node, p'))" for node
    using that by (rule headed_ge(3) [where body = body, rotated]) (rule b)
  have h4: "p \<le> p'" if "parseUseCase body tokens p = Some (Inr (node, p'))" for node
    using that by (rule headed_ge(4) [where body = body, rotated]) (rule b)
  consider (package) "found (parsePackage body tokens p) = Some (Inr (element, p'))"
    | (part) "found (parsePart body tokens p) = Some (Inr (element, p'))"
    | (attribute) "found (Some (parseAttribute tokens p)) = Some (Inr (element, p'))"
    | (port) "found (Some (parsePort tokens p)) = Some (Inr (element, p'))"
    | (connection) "found (Some (parseConnection tokens p)) = Some (Inr (element, p'))"
    | (requirement) "found (parseRequirement body tokens p) = Some (Inr (element, p'))"
    | (usecase) "found (parseUseCase body tokens p) = Some (Inr (element, p'))"
    | (generic) "parseGenericElement tokens p = (element, p')"
    using d unfolding dispatch_def by (auto split: if_splits)
  then show ?thesis
  proof cases
    case package then show ?thesis by (auto dest!: found_Inr dest: h1)
  next
    case part then show ?thesis by (auto dest!: found_Inr dest: h2)
  next
    case attribute then show ?thesis by (auto dest!: found_Inr dest: parseAttribute_ge)
  next
    case port then show ?thesis by (auto dest!: found_Inr dest: parsePort_ge)
  next
    case connection then show ?thesis by (auto dest!: found_Inr dest: parseConnection_ge)
  next
    case requirement then show ?thesis by (auto dest!: found_Inr dest: h3)
  next
    case usecase then show ?thesis by (auto dest!: found_Inr dest: h4)
  next
    case generic then show ?thesis by (rule parseGenericElement_ge)
  qed
qed

lemma parseElement_parseBody_ge:
  "(parseElement n tokens p = Some (Inr (element, p')) \<longrightarrow> p \<le> p') \<and>
   (parseBody n tokens p nodes = Some (Inr (nodes', p'')) \<longrightarrow> p \<le> p'')"
proof (induction n arbitrary: p element p' nodes nodes' p'')
  case 0
  show ?case by simp
next
  case (Suc n)
  have el: "\<And>q e q'. parseElement n tokens q = Some (Inr (e, q')) \<Longrightarrow> q \<le> q'"
    using Suc.IH by blast
  have bd: "\<And>q ns ns' q'. parseBody n tokens q ns = Some (Inr (ns', q')) \<Longrightarrow> q \<le> q'"
    using Suc.IH by blast
  have "p \<le> p'" if h: "parseElement (Suc n) tokens p = Some (Inr (element, p'))"
  proof (cases "parser_current tokens p")
    case None
    with h show ?thesis by (simp add: parseElement.simps(2))
  next
    case (Some token)
    show ?thesis
    proof (cases "tk_type token \<noteq> EOF \<and> tk_type token = KEYWORD")
      case True
      with h Some
      have "dispatch (\<lambda>q. parseBody n tokens q []) (tk_value token) tokens p = Some (Inr (element, p'))"
        by (simp add: parseElement.simps(2))
      then show ?thesis
        by (rule dispatch_ge [where body = "\<lambda>q. parseBody n tokens q []", rotated]) (rule bd)
    next
      case False
      with h Some show ?thesis
        by (auto simp: parseElement.simps(2) split: if_splits dest: parseGenericElement_ge)
    qed
  qed
  moreover have "p \<le> p''" if h: "parseBody (Suc n) tokens p nodes = Some (Inr (nodes', p''))"
  proof (cases "parser_current tokens p")
    case None
    with h show ?thesis by (simp add: parseBody.simps(2))
  next
    case (Some token)
    show ?thesis
    proof (cases "tk_value token = Str (js ''}'')")
      case True
      with h Some show ?thesis by (simp add: parseBody.simps(2))
    next
      case False
      with h Some obtain e q where 1: "parseElement n tokens p = Some (Inr (e, q))"
        and 2: "parseBody n tokens q (case e of None \<Rightarrow> nodes | Some node \<Rightarrow> nodes @ [node]) =
                  Some (Inr (nodes', p''))"
        by (auto simp: parseBody.simps(2) split: option.splits sum.splits)
      from el [OF 1] bd [OF 2] show ?thesis by simp
    qed
  qed
  ultimately show ?case by blast
qed

subsection \<open>The top-level loop\<close>

lemma with_children_Nil: "with_children ast [] = ast"
  by (cases ast) (simp add: with_children_def)

lemma with_children_addChild:
  "with_children (addChild ast node) nodes = with_children ast (node # nodes)"
  by (simp add: with_children_def addChild_def)

lemma parse_loop_raise:
  assumes "siblings tokens p nodes p'" and "\<not> at_end tokens p'"
    and "parseElement n tokens p' = Some (Inl e)"
  shows "\<exists>m. parse_loop m tokens p ast = Some (Some e, with_children ast nodes)"
  using assms
proof (induction arbitrary: ast rule: siblings.induct)
  case (none p)
  then have "parse_loop (Suc n) tokens p ast = Some (Some e, ast)"
    by (auto simp: parse_loop.simps(2) at_end_def split: option.splits)
  then show ?case by (auto simp: with_children_Nil)
next
  case (element p k node p1 nodes p')
  from element.IH [OF element.prems, of "addChild ast node"]
  obtain m where "parse_loop m tokens p1 (addChild ast node) = Some (Some e, with_children ast (node # nodes))"
    by (auto simp: with_children_addChild)
  then have 1: "parse_loop (k + m) tokens p1 (addChild ast node) = Some (Some e, with_children ast (node # nodes))"
    using parse_loop_mono [of m _ _ _ _ k] by (simp add: add.commute)
  have 2: "parseElement (k + m) tokens p = Some (Inr (Some node, p1))"
    by (rule parseElement_mono [OF element.hyps(2)])
  from element.hyps(1) 1 2
  have "parse_loop (Suc (k + m)) tokens p ast = Some (Some e, with_children ast (node # nodes))"
    by (auto simp: parse_loop.simps(2) at_end_def split: option.splits)
  then show ?case by blast
next
  case (null p k p1 nodes p')
  from null.IH [OF null.prems, of ast]
  obtain m where "parse_loop m tokens p1 ast = Some (Some e, with_children ast nodes)"
    by auto
  then have 1: "parse_loop (k + m) tokens p1 ast = Some (Some e, with_children ast nodes)"
    using parse_loop_mono [of m _ _ _ _ k] by (simp add: add.commute)
  have 2: "parseElement (k + m) tokens p = Some (Inr (None, p1))"
    by (rule parseElement_mono [OF null.hyps(2)])
  from null.hyps(1) 1 2
  have "parse_loop (Suc (k + m)) tokens p ast = Some (Some e, with_children ast nodes)"
    by (auto simp: parse_loop.simps(2) at_end_def split: option.splits)
  then show ?case by blast
qed

lemma parse_loop_raised:
  "parse_loop m tokens p ast = Some (Some e, ast') \<Longrightarrow>
   \<exists>nodes p' n. siblings tokens p nodes p' \<and> \<not> at_end tokens p' \<and>
                parseElement n tokens p' = Some (Inl e) \<and> ast' = with_children ast nodes"
proof (induction m arbitrary: p ast)
  case 0
  then show ?case by simp
next
  case (Suc m)
  from Suc.prems obtain token where c: "parser_current tokens p = Some token"
    and ne: "tk_type token \<noteq> EOF"
    by (cases "parser_current tokens p") (auto simp: parse_loop.simps(2) split: if_splits)
  then have na: "\<not> at_end tokens p" by (simp add: at_end_def)
  from Suc.prems c ne obtain re where re: "parseElement m tokens p = Some re"
    by (cases "parseElement m tokens p") (auto simp: parse_loop.simps(2))
  show ?case
  proof (cases re)
    case (Inl e')
    with Suc.prems c ne re have "e' = e" "ast' = ast" by (auto simp: parse_loop.simps(2))
    with re Inl na siblings.none [of tokens p] show ?thesis
      by (metis with_children_Nil)
  next
    case (Inr a)
    obtain element p1 where a: "a = (element, p1)" by (cases a)
    show ?thesis
    proof (cases element)
      case None
      with Suc.prems c ne re Inr a have "parse_loop m tokens p1 ast = Some (Some e, ast')"
        by (simp add: parse_loop.simps(2))
      from Suc.IH [OF this] obtain nodes p' n where
        s: "siblings tokens p1 nodes p'" and r: "\<not> at_end tokens p'"
          "parseElement n tokens p' = Some (Inl e)" "ast' = with_children ast nodes"
        by blast
      from siblings.null [OF na _ s, of m] re Inr a None have "siblings tokens p nodes p'" by simp
      with r show ?thesis by blast
    next
      case (Some node)
      with Suc.prems c ne re Inr a
      have "parse_loop m tokens p1 (addChild ast node) = Some (Some e, ast')"
        by (simp add: parse_loop.simps(2))
      from Suc.IH [OF this] obtain nodes p' n where
        s: "siblings tokens p1 nodes p'" and r: "\<not> at_end tokens p'"
          "parseElement n tokens p' = Some (Inl e)"
          "ast' = with_children (addChild ast node) nodes"
        by blast
      from siblings.element [OF na _ s, of m node] re Inr a Some
      have "siblings tokens p (node # nodes) p'" by simp
      with r show ?thesis by (auto simp: with_children_addChild)
    qed
  qed
qed

lemma tokens_discarded:
  "tokenize (js ''part a; package P { part x; \"}\" part b;'') =
     [\<lparr>tk_type = KEYWORD, tk_value = Str (js ''part''), tk_line = 1, tk_column = 1\<rparr>,
      \<lparr>tk_type = IDENTIFIER, tk_value = Str (js ''a''), tk_line = 1, tk_column = 6\<rparr>,
      \<lparr>tk_type = PUNCTUATION, tk_value = Str (js '';''), tk_line = 1, tk_column = 7\<rparr>,
      \<lparr>tk_type = KEYWORD, tk_value = Str (js ''package''), tk_line = 1, tk_column = 9\<rparr>,
      \<lparr>tk_type = IDENTIFIER, tk_value = Str (js ''P''), tk_line = 1, tk_column = 17\<rparr>,
      \<lparr>tk_type = PUNCTUATION, tk_value = Str (js ''{''), tk_line = 1, tk_column = 19\<rparr>,
      \<lparr>tk_type = KEYWORD, tk_value = Str (js ''part''), tk_line = 1, tk_column = 21\<rparr>,
      \<lparr>tk_type = IDENTIFIER, tk_value = Str (js ''x''), tk_line = 1, tk_column = 26\<rparr>,
      \<lparr>tk_type = PUNCTUATION, tk_value = Str (js '';''), tk_line = 1, tk_column = 27\<rparr>,
      \<lparr>tk_type = STRING, tk_value = Str (js ''}''), tk_line = 1, tk_column = 29\<rparr>,
      \<lparr>tk_type = KEYWORD, tk_value = Str (js ''part''), tk_line = 1, tk_column = 33\<rparr>,
      \<lparr>tk_type = IDENTIFIER, tk_value = Str (js ''b''), tk_line = 1, tk_column = 38\<rparr>,
      \<lparr>tk_type = PUNCTUATION, tk_value = Str (js '';''), tk_line = 1, tk_column = 39\<rparr>,
      \<lparr>tk_type = EOF, tk_value = Null, tk_line = 1, tk_column = 40\<rparr>]"
  by code_simp

section \<open>The properties\<close>

text \<open>
  Claim C1: for every token sequence, \<^verbatim>\<open>parse()\<close> returns a root and logs the error \<open>e\<close>
  exactly when, after some top-level elements have been completed, the call of
  \<^verbatim>\<open>parseElement\<close> for the next one raises \<open>e\<close>; the root then holds exactly the completed
  elements, in order. So a failure raised by any rule is caught by \<^verbatim>\<open>parse()\<close>, the loop
  stops there, the element under construction is not in the root, nor is anything after
  it, and the caller gets a root, never the error, which is only logged.
\<close>

theorem parse_failure_is_caught:
  "(\<exists>m. parse m tokens = Some (root, [e])) \<longleftrightarrow>
   (\<exists>nodes p n. siblings tokens 0 nodes p \<and> \<not> at_end tokens p \<and>
                parseElement n tokens p = Some (Inl e) \<and> root = ASTNode ''root'' [] nodes)"
proof
  assume "\<exists>m. parse m tokens = Some (root, [e])"
  then obtain m where "parse m tokens = Some (root, [e])" ..
  then have "parse_loop m tokens 0 (ASTNode ''root'' [] []) = Some (Some e, root)"
    by (auto simp: parse_def split: option.splits prod.splits)
  from parse_loop_raised [OF this] show
    "\<exists>nodes p n. siblings tokens 0 nodes p \<and> \<not> at_end tokens p \<and>
                 parseElement n tokens p = Some (Inl e) \<and> root = ASTNode ''root'' [] nodes"
    by (simp add: with_children_def)
next
  assume "\<exists>nodes p n. siblings tokens 0 nodes p \<and> \<not> at_end tokens p \<and>
                 parseElement n tokens p = Some (Inl e) \<and> root = ASTNode ''root'' [] nodes"
  then obtain nodes p n where s: "siblings tokens 0 nodes p" "\<not> at_end tokens p"
    "parseElement n tokens p = Some (Inl e)" and r: "root = ASTNode ''root'' [] nodes"
    by blast
  from parse_loop_raise [OF s, of "ASTNode ''root'' [] []"] r
  obtain m where "parse_loop m tokens 0 (ASTNode ''root'' [] []) = Some (Some e, root)"
    by (auto simp: with_children_def)
  then have "parse m tokens = Some (root, [e])" by (simp add: parse_def)
  then show "\<exists>m. parse m tokens = Some (root, [e])" ..
qed

text \<open>
  In \<^verbatim>\<open>part a; package P { part x; "}" part b;\<close> the string token \<^verbatim>\<open>"}"\<close> ends the body
  loop of the package and then fails \<^verbatim>\<open>expect('}')\<close>: the root keeps the part \<open>a\<close>; the
  package, with its child \<open>x\<close>, is discarded, the part \<open>b\<close> is never parsed.
\<close>

theorem parse_failure_is_caught_witness:
  "\<exists>m. parse m (tokenize (js ''part a; package P { part x; \"}\" part b;'')) =
     Some (ASTNode ''root'' [] [ASTNode ''part'' [(''name'', Str (js ''a''))] []],
           [Error PUNCTUATION (Some (js ''}''))
              (Some \<lparr>tk_type = STRING, tk_value = Str (js ''}''), tk_line = 1, tk_column = 29\<rparr>)])"
proof -
  let ?toks = "tokenize (js ''part a; package P { part x; \"}\" part b;'')"
  have 1: "\<not> at_end ?toks 0" and 2: "\<not> at_end ?toks 3"
    unfolding tokens_discarded by code_simp+
  have 3: "parseElement 1 ?toks 0 = Some (Inr (Some (ASTNode ''part'' [(''name'', Str (js ''a''))] []), 3))"
    unfolding tokens_discarded by code_simp
  have 4: "parseElement 3 ?toks 3 = Some (Inl (Error PUNCTUATION (Some (js ''}''))
              (Some \<lparr>tk_type = STRING, tk_value = Str (js ''}''), tk_line = 1, tk_column = 29\<rparr>)))"
    unfolding tokens_discarded by code_simp
  have "siblings ?toks 0 [ASTNode ''part'' [(''name'', Str (js ''a''))] []] 3"
    by (rule siblings.element [OF 1 3 siblings.none])
  with 2 4 show ?thesis
    by (intro parse_failure_is_caught [THEN iffD2]) blast
qed

text \<open>
  Claim C2 says that \<^verbatim>\<open>parse()\<close> terminates on every token sequence of the lexer. It
  does not on the text \<^verbatim>\<open>}\<close>: at the top level the generic rule returns a node
  without consuming the brace, and the loop of \<^verbatim>\<open>parse()\<close> calls it again at the same
  token, for ever. Whatever the bound, the call has not returned.
\<close>

theorem parse_diverges_on_stray_brace: "parse n (tokenize (js ''}'')) = None"
  unfolding tokens_rbrace parse_def
  by (simp add: parse_loop_stuck [where token = "\<lparr>tk_type = PUNCTUATION, tk_value = Str (js ''}''), tk_line = 1, tk_column = 1\<rparr>"] parser_current_def)

text \<open>
  Claim C3 says that an opening brace that is never closed makes \<^verbatim>\<open>expect('}')\<close> fail
  at the end of the input, and that \<^verbatim>\<open>parse()\<close> returns the elements parsed before.
  On the text \<^verbatim>\<open>package P {\<close> the loop of the body never ends instead: the EOF token is
  a token whose value is not \<^verbatim>\<open>}\<close>, \<^verbatim>\<open>parseElement\<close> returns \<^verbatim>\<open>null\<close> for it without
  consuming it, and \<^verbatim>\<open>expect('}')\<close> is never reached. Whatever the bound, \<^verbatim>\<open>parse()\<close>
  has not returned.
\<close>

theorem parse_diverges_on_unclosed_brace: "parse n (tokenize (js ''package P {'')) = None"
proof -
  define toks where "toks =
     [\<lparr>tk_type = KEYWORD, tk_value = Str (js ''package''), tk_line = 1, tk_column = 1\<rparr>,
      \<lparr>tk_type = IDENTIFIER, tk_value = Str (js ''P''), tk_line = 1, tk_column = 9\<rparr>,
      \<lparr>tk_type = PUNCTUATION, tk_value = Str (js ''{''), tk_line = 1, tk_column = 11\<rparr>,
      \<lparr>tk_type = EOF, tk_value = Null, tk_line = 1, tk_column = 12\<rparr>]"
  have c0: "parser_current toks 0 =
      Some \<lparr>tk_type = KEYWORD, tk_value = Str (js ''package''), tk_line = 1, tk_column = 1\<rparr>"
    and c1: "parser_current toks (Suc 0) =
      Some \<lparr>tk_type = IDENTIFIER, tk_value = Str (js ''P''), tk_line = 1, tk_column = 9\<rparr>"
    and c2: "parser_current toks (Suc (Suc 0)) =
      Some \<lparr>tk_type = PUNCTUATION, tk_value = Str (js ''{''), tk_line = 1, tk_column = 11\<rparr>"
    and c3: "parser_current toks (Suc (Suc (Suc 0))) =
      Some \<lparr>tk_type = EOF, tk_value = Null, tk_line = 1, tk_column = 12\<rparr>"
    by (simp_all add: parser_current_def toks_def)
  have body: "parseBody m toks (Suc (Suc (Suc 0))) [] = None" for m
    by (rule parseBody_at_EOF [OF c3]) simp_all
  have pk: "parsePackage (\<lambda>p. parseBody m toks p []) toks 0 = None" for m
    by (simp add: parsePackage_def braces_def expect_def capture_def current_value_def
                  c0 c1 c2 body)
  have el: "parseElement m toks 0 = None" for m
    by (cases m) (simp_all add: parseElement.simps(2) c0 dispatch_def found_def pk)
  have "parse_loop n toks 0 ast = None" for ast
    by (cases n) (simp_all add: parse_loop.simps(2) c0 el)
  then show ?thesis
    unfolding tokens_open_package parse_def toks_def by simp
qed

text \<open>
  Claim C4: for every text \<^verbatim>\<open>tokenize()\<close> returns (the function is total, and nothing
  in it can raise), and what it returns ends in an EOF token, the only EOF token of the
  sequence: none stands before the last place.
\<close>

theorem tokenize_ends_in_one_EOF:
  "(\<exists>ts eof. tokenize text = ts @ [eof] \<and> tk_type eof = EOF \<and> tk_value eof = Null \<and>
             filter (\<lambda>x. tk_type x = EOF) ts = [])
   \<and> tk_type (last (tokenize text)) = EOF
   \<and> length (filter (\<lambda>x. tk_type x = EOF) (tokenize text)) = 1"
proof -
  from tokenize_loop_shape [of "SysMLTokenizer text" "[]"]
  obtain ts eof where s: "tokenize text = ts @ [eof]" "tk_type eof = EOF" "tk_value eof = Null"
    "filter (\<lambda>x. tk_type x = EOF) ts = []"
    unfolding tokenize_def by auto
  then show ?thesis by auto
qed

text \<open>
  Claim C5: the text \<^verbatim>\<open>connection c : a B.c;\<close> parses to a connection node with name
  \<open>c\<close>, from \<open>a\<close> and to \<open>B\<close>, followed by a sibling generic node without a name. The
  connection rule stops at the dot (token 5): the dot, the identifier and the semicolon
  are left, and the generic rule makes the second node of them.
\<close>

theorem connection_qualified_name:
  "parse (3 + k) (tokenize (js ''connection c : a B.c;'')) =
     Some (ASTNode ''root'' []
            [ASTNode ''connection''
               [(''name'', Str (js ''c'')), (''from'', Str (js ''a'')), (''to'', Str (js ''B''))] [],
             ASTNode ''generic'' [] []], [])
   \<and> parseConnection (tokenize (js ''connection c : a B.c;'')) 0 =
     Inr (ASTNode ''connection''
            [(''name'', Str (js ''c'')), (''from'', Str (js ''a'')), (''to'', Str (js ''B''))] [], 5)
   \<and> map tk_value (drop 5 (tokenize (js ''connection c : a B.c;''))) =
     [Str (js ''.''), Str (js ''c''), Str (js '';''), Null]
   \<and> parseGenericElement (tokenize (js ''connection c : a B.c;'')) 5 =
     (Some (ASTNode ''generic'' [] []), 8)"
proof -
  have "parse 3 (tokenize (js ''connection c : a B.c;'')) =
     Some (ASTNode ''root'' []
            [ASTNode ''connection''
               [(''name'', Str (js ''c'')), (''from'', Str (js ''a'')), (''to'', Str (js ''B''))] [],
             ASTNode ''generic'' [] []], [])"
    unfolding tokens_connection by code_simp
  then have 1: "parse (3 + k) (tokenize (js ''connection c : a B.c;'')) =
     Some (ASTNode ''root'' []
            [ASTNode ''connection''
               [(''name'', Str (js ''c'')), (''from'', Str (js ''a'')), (''to'', Str (js ''B''))] [],
             ASTNode ''generic'' [] []], [])"
    by (rule parse_mono)
  have 2: "parseConnection (tokenize (js ''connection c : a B.c;'')) 0 =
     Inr (ASTNode ''connection''
            [(''name'', Str (js ''c'')), (''from'', Str (js ''a'')), (''to'', Str (js ''B''))] [], 5)"
    unfolding tokens_connection by code_simp
  have 3: "map tk_value (drop 5 (tokenize (js ''connection c : a B.c;''))) =
     [Str (js ''.''), Str (js ''c''), Str (js '';''), Null]"
    unfolding tokens_connection by code_simp
  have 4: "parseGenericElement (tokenize (js ''connection c : a B.c;'')) 5 =
     (Some (ASTNode ''generic'' [] []), 8)"
    unfolding tokens_connection by code_simp
  from 1 2 3 4 show ?thesis by blast
qed

text \<open>
  Claim C6, as the code has it. On a current token that is the EOF token,
  \<^verbatim>\<open>parseElement\<close> returns \<^verbatim>\<open>null\<close> and leaves the cursor where it is. On any other current
  token it returns what the generic rule returns whenever the token is not a KEYWORD,
  or is a KEYWORD whose text is none of package, part, attribute, port, connection,
  requirement, use. When the token is such an unmatched keyword of the keyword set, the
  generic node has no property, so no name, and the keyword is consumed by the skipping
  loop: the rule returns with the cursor behind it.
\<close>

theorem generic_dispatch:
  assumes c: "parser_current tokens position = Some token"
  shows "(tk_type token = EOF \<longrightarrow>
            parseElement (Suc n) tokens position = Some (Inr (None, position)))
       \<and> (tk_type token \<noteq> EOF \<and>
            (tk_type token \<noteq> KEYWORD \<or> tk_value token \<notin> Str ` set dedicated) \<longrightarrow>
            parseElement (Suc n) tokens position = Some (Inr (parseGenericElement tokens position)))
       \<and> (tk_type token = KEYWORD \<and> tk_value token = Str kw \<and> kw \<in> set KEYWORDS \<and>
            kw \<notin> set dedicated \<longrightarrow>
            parseGenericElement tokens position =
              (Some (ASTNode ''generic'' [] []),
               skip_if tokens '';'' (skip_loop tokens (position + 1)))
            \<and> position < skip_if tokens '';'' (skip_loop tokens (position + 1)))"
proof (intro conjI impI)
  assume "tk_type token = EOF"
  with c show "parseElement (Suc n) tokens position = Some (Inr (None, position))"
    by (simp add: parseElement.simps(2))
next
  assume "tk_type token \<noteq> EOF \<and>
          (tk_type token \<noteq> KEYWORD \<or> tk_value token \<notin> Str ` set dedicated)"
  then show "parseElement (Suc n) tokens position = Some (Inr (parseGenericElement tokens position))"
    using c by (auto simp: parseElement.simps(2) dispatch_def dedicated_def)
next
  assume k: "tk_type token = KEYWORD \<and> tk_value token = Str kw \<and> kw \<in> set KEYWORDS \<and>
             kw \<notin> set dedicated"
  with keyword_not_delimiter
  have v: "tk_value token \<noteq> Str (js '';'')" "tk_value token \<noteq> Str (js ''}'')"
    by auto
  from skip_loop_step [OF c v]
  show "parseGenericElement tokens position =
          (Some (ASTNode ''generic'' [] []),
           skip_if tokens '';'' (skip_loop tokens (position + 1)))"
    using c k by (simp add: parseGenericElement_def capture_def)
  have "position + 1 \<le> skip_loop tokens (position + 1)" by (rule skip_loop_ge)
  also have "\<dots> \<le> skip_if tokens '';'' (skip_loop tokens (position + 1))" by (rule skip_if_ge)
  finally show "position < skip_if tokens '';'' (skip_loop tokens (position + 1))" by simp
qed

text \<open>
  In \<^verbatim>\<open>block B;\<close> the keyword \<^verbatim>\<open>block\<close> at token 0 goes to the generic rule, which
  consumes the three tokens of the statement, and the EOF token at token 3 gives
  \<^verbatim>\<open>null\<close>.
\<close>

theorem generic_dispatch_witness:
  "parseElement 1 (tokenize (js ''block B;'')) 0 = Some (Inr (Some (ASTNode ''generic'' [] []), 3))
   \<and> parseElement 1 (tokenize (js ''block B;'')) 3 = Some (Inr (None, 3))"
proof -
  let ?tok = "\<lparr>tk_type = KEYWORD, tk_value = Str (js ''block''), tk_line = 1, tk_column = 1\<rparr>"
  let ?eof = "\<lparr>tk_type = EOF, tk_value = Null, tk_line = 1, tk_column = 9\<rparr>"
  have c: "parser_current (tokenize (js ''block B;'')) 0 = Some ?tok"
    and c3: "parser_current (tokenize (js ''block B;'')) 3 = Some ?eof"
    unfolding tokens_block by (simp_all add: parser_current_def)
  have k: "js ''block'' \<in> set KEYWORDS" "js ''block'' \<notin> set dedicated"
    "tk_value ?tok \<notin> Str ` set dedicated"
    by (code_simp)+
  have s: "skip_if (tokenize (js ''block B;'')) '';'' (skip_loop (tokenize (js ''block B;'')) (0 + 1)) = 3"
    unfolding tokens_block by code_simp
  from generic_dispatch [OF c, where kw = "js ''block''" and n = 0] k s
  have "parseElement 1 (tokenize (js ''block B;'')) 0 = Some (Inr (Some (ASTNode ''generic'' [] []), 3))"
    by simp
  moreover from generic_dispatch [OF c3, where kw = "js ''block''" and n = 0]
  have "parseElement 1 (tokenize (js ''block B;'')) 3 = Some (Inr (None, 3))"
    by simp
  ultimately show ?thesis by blast
qed

text \<open>
  Claim C6 as it is written, for every current token that is not a KEYWORD, fails at the
  EOF token, the only token of the empty text: \<^verbatim>\<open>parseElement\<close> returns \<^verbatim>\<open>null\<close> before
  it looks at the type, and the generic rule is not called (it would return a node).
\<close>

theorem EOF_is_not_dispatched:
  "tk_type (tokenize [] ! 0) \<noteq> KEYWORD \<and>
   parseElement 1 (tokenize []) 0 = Some (Inr (None, 0)) \<and>
   parseElement 1 (tokenize []) 0 \<noteq> Some (Inr (parseGenericElement (tokenize []) 0))"
  by code_simp

text \<open>
  Claim C7: when the cursor is at a quote \<open>q\<close>, single or double, followed by the items
  of a literal and then by the same quote or by the end of the text, \<^verbatim>\<open>nextToken()\<close>
  returns a STRING token at the position of the quote whose value is the decoded items:
  a plain character as it is, an escape as the character after the backslash, whatever
  that character. The cursor is left after the closing quote, or at the end of the text
  when the literal is not terminated; nothing is raised. In particular the literal
  \<^verbatim>\<open>"a\"b"\<close> gives the value \<^verbatim>\<open>a"b\<close>.
\<close>

theorem string_literal_value:
  assumes tx: "t_text t = pre @ [q] @ concat (map written items) @ rest"
    and pos: "t_position t = length pre"
    and q: "q = dquote \<or> q = squote"
    and items: "list_all (plain_ok q) items"
    and rest: "rest = [] \<or> (\<exists>r. rest = q # r)"
  shows "fst (nextToken t) =
           \<lparr>tk_type = STRING, tk_value = Str (map decoded items), tk_line = t_line t,
              tk_column = t_column t\<rparr>
       \<and> t_position (snd (nextToken t)) =
           length pre + 1 + length (concat (map written items)) + (if rest = [] then 0 else 1)
       \<and> tokenize [dquote, 0x61, backslash, dquote, 0x62, dquote] =
           [\<lparr>tk_type = STRING, tk_value = Str [0x61, dquote, 0x62], tk_line = 1, tk_column = 1\<rparr>,
            \<lparr>tk_type = EOF, tk_value = Null, tk_line = 1, tk_column = 7\<rparr>]"
proof -
  let ?n = "length (concat (map written items))"
  let ?t2 = "(advance ^^ ?n) (advance t)"
  note r = readString_items [OF tx pos quote_chars(3) [OF q] items]
  have rs: "readString t = (map decoded items, if rest = [] then ?t2 else advance ?t2)"
  proof (cases "rest = []")
    case True
    with r(3,4) have "current ?t2 = None" by (simp add: current_at_end)
    with r(1,2) True show ?thesis by (simp add: readString_def Let_def readString_loop_end)
  next
    case False
    with rest obtain r' where "rest = q # r'" by auto
    with r(3) have "t_text ?t2 = (pre @ [q] @ concat (map written items)) @ q # r'" by simp
    from current_at [OF this r(4)] have "current ?t2 = Some q" .
    with r(1,2) False show ?thesis by (simp add: readString_def Let_def readString_loop_quote)
  qed
  have "t_position (snd (readString t)) = length pre + 1 + ?n + (if rest = [] then 0 else 1)"
    using rs r(4) by (simp add: advance_position)
  moreover have "tokenize [dquote, 0x61, backslash, dquote, 0x62, dquote] =
           [\<lparr>tk_type = STRING, tk_value = Str [0x61, dquote, 0x62], tk_line = 1, tk_column = 1\<rparr>,
            \<lparr>tk_type = EOF, tk_value = Null, tk_line = 1, tk_column = 7\<rparr>]"
    by code_simp
  ultimately show ?thesis
    using nextToken_string [OF r(1) q] rs by simp
qed

theorem string_literal_value_witness:
  "fst (nextToken (SysMLTokenizer [dquote, 0x61, backslash, 0x6E, squote, dquote, 0x3B])) =
     \<lparr>tk_type = STRING, tk_value = Str [0x61, 0x6E, squote], tk_line = 1, tk_column = 1\<rparr>
   \<and> t_position (snd (nextToken (SysMLTokenizer [dquote, 0x61, backslash, 0x6E, squote, dquote, 0x3B]))) = 6"
proof -
  let ?t = "SysMLTokenizer [dquote, 0x61, backslash, 0x6E, squote, dquote, 0x3B]"
  let ?items = "[Plain 0x61, Escaped 0x6E, Plain squote]"
  have 1: "t_text ?t = [] @ [dquote] @ concat (map written ?items) @ [dquote, 0x3B]"
    by (simp add: SysMLTokenizer_def)
  have 2: "t_position ?t = length ([] :: jsstring)" by (simp add: SysMLTokenizer_def)
  have 3: "dquote = dquote \<or> dquote = squote" by simp
  have 4: "list_all (plain_ok dquote) ?items"
    by (simp add: dquote_def squote_def backslash_def)
  have 5: "[dquote, 0x3B] = [] \<or> (\<exists>r. [dquote, 0x3B :: cu] = dquote # r)" by simp
  from string_literal_value [OF 1 2 3 4 5] show ?thesis
    by (simp add: SysMLTokenizer_def)
qed

text \<open>
  Claim C8: for every text, every token of \<^verbatim>\<open>tokenize()\<close> records the 1-based line and
  column of the index at which the cursor stood when \<^verbatim>\<open>nextToken()\<close> had skipped the white
  space and had consumed nothing of the token. For a token other than EOF this index is
  that of its first character: the first character that is not white space after the
  end of the token before it (after the start of the text for the first token), with
  which the token begins, and the token ends after it. For the EOF token it is the end
  of the text. The indices increase strictly, and along the sequence the pairs of line
  and column never decrease in the lexicographic order. In the text of \<^verbatim>\<open>a\<close>, a newline,
  a space and \<^verbatim>\<open>"b"\<close>, the tokens are at line 1 column 1, line 2 column 2 and, for EOF,
  line 2 column 5.
\<close>

theorem token_positions:
  "map fst (token_spans s) = tokenize s
   \<and> list_all (span_ok s) (token_spans s)
   \<and> linked s 0 (token_spans s)
   \<and> sorted_wrt (<) (map (fst \<circ> snd) (token_spans s))
   \<and> sorted_wrt position_le (tokenize s)
   \<and> token_spans [0x61, newline, 0x20, dquote, 0x62, dquote] =
       [(\<lparr>tk_type = IDENTIFIER, tk_value = Str [0x61], tk_line = 1, tk_column = 1\<rparr>, 0, 1),
        (\<lparr>tk_type = STRING, tk_value = Str [0x62], tk_line = 2, tk_column = 2\<rparr>, 3, 6),
        (\<lparr>tk_type = EOF, tk_value = Null, tk_line = 2, tk_column = 5\<rparr>, 6, 6)]"
proof -
  have "located (SysMLTokenizer s)"
    by (simp add: located_def SysMLTokenizer_def line_of_def column_of_def)
  from tokenize_spans_run [OF this, of "[]" "[]"]
  have m: "map fst (token_spans s) = tokenize s"
    and ok: "list_all (span_ok s) (token_spans s)"
    and li: "linked s 0 (token_spans s)"
    and st: "sorted_wrt (<) (map (fst \<circ> snd) (token_spans s))"
    by (auto simp: tokenize_def token_spans_def SysMLTokenizer_def)
  have len: "length (tokenize s) = length (token_spans s)"
    using m by (metis length_map)
  have at: "token_at s (tokenize s ! k) (map (fst \<circ> snd) (token_spans s) ! k)"
    if "k < length (tokenize s)" for k
  proof -
    from that len have k: "k < length (token_spans s)" by simp
    obtain tok i j where x: "token_spans s ! k = (tok, i, j)" by (cases "token_spans s ! k")
    from ok k have "span_ok s (token_spans s ! k)" by (simp add: list_all_length)
    with x have "token_at s tok i" by simp
    moreover have "tokenize s ! k = tok" using m k x by (metis fst_conv nth_map)
    ultimately show ?thesis using k x by simp
  qed
  have "position_le (tokenize s ! i) (tokenize s ! j)" if "i < j" "j < length (tokenize s)" for i j
  proof -
    from st that len have "map (fst \<circ> snd) (token_spans s) ! i \<le> map (fst \<circ> snd) (token_spans s) ! j"
      by (simp add: sorted_wrt_iff_nth_less less_imp_le del: map_map)
    from line_col_mono [OF this, of s] at [of i] at [of j] that
    show ?thesis by (simp add: position_le_def token_at_def)
  qed
  then have "sorted_wrt position_le (tokenize s)"
    by (simp add: sorted_wrt_iff_nth_less)
  moreover have "token_spans [0x61, newline, 0x20, dquote, 0x62, dquote] =
       [(\<lparr>tk_type = IDENTIFIER, tk_value = Str [0x61], tk_line = 1, tk_column = 1\<rparr>, 0, 1),
        (\<lparr>tk_type = STRING, tk_value = Str [0x62], tk_line = 2, tk_column = 2\<rparr>, 3, 6),
        (\<lparr>tk_type = EOF, tk_value = Null, tk_line = 2, tk_column = 5\<rparr>, 6, 6)]"
    by code_simp
  ultimately show ?thesis using m ok li st by blast
qed

text \<open>
  Claim C9, as the code has it: with a node selected, a node is treated as the selected
  node if and only if its \<^verbatim>\<open>properties.name\<close> equals that of the selected node; the types
  of the two nodes are not compared.
\<close>

theorem isSelected_compares_names:
  "isSelected (Some selected) node = (get_property node ''name'' = get_property selected ''name'')"
  by (auto simp: isSelected_def)

text \<open>
  Claim C9 as it is written, a comparison of the pair of type and name, fails: with the
  part \<open>x\<close> selected, the attribute \<open>x\<close> is treated as selected too.
\<close>

theorem isSelected_ignores_type:
  "\<not> (isSelected (Some (ASTNode ''part'' [(''name'', Str (js ''x''))] []))
          (ASTNode ''attribute'' [(''name'', Str (js ''x''))] [])
        \<longleftrightarrow> node_type (ASTNode ''attribute'' [(''name'', Str (js ''x''))] [])
              = node_type (ASTNode ''part'' [(''name'', Str (js ''x''))] [])
            \<and> get_property (ASTNode ''attribute'' [(''name'', Str (js ''x''))] []) ''name''
              = get_property (ASTNode ''part'' [(''name'', Str (js ''x''))] []) ''name'')"
  by (simp add: isSelected_def get_property_def)

text \<open>
  Claim C10: when the literal is not terminated and the last character of the text is a
  backslash that no escape has consumed, \<^verbatim>\<open>tokenize()\<close> appends a STRING token whose
  value is the decoded items before that backslash, then the EOF token: the backslash
  is consumed and contributes nothing.
\<close>

theorem trailing_backslash_dropped:
  assumes tx: "t_text t = pre @ [q] @ concat (map written items) @ [backslash]"
    and pos: "t_position t = length pre"
    and q: "q = dquote \<or> q = squote"
    and items: "list_all (plain_ok q) items"
  shows "\<exists>l c. tokenize_loop t tokens =
           tokens @ [\<lparr>tk_type = STRING, tk_value = Str (map decoded items), tk_line = t_line t,
                       tk_column = t_column t\<rparr>,
                     \<lparr>tk_type = EOF, tk_value = Null, tk_line = l, tk_column = c\<rparr>]"
proof -
  let ?n = "length (concat (map written items))"
  let ?t2 = "(advance ^^ ?n) (advance t)"
  let ?tok = "\<lparr>tk_type = STRING, tk_value = Str (map decoded items), tk_line = t_line t,
                tk_column = t_column t\<rparr>"
  note r = readString_items [OF tx pos quote_chars(3) [OF q] items]
  from r(3) have "t_text ?t2 = (pre @ [q] @ concat (map written items)) @ backslash # []" by simp
  from current_at [OF this r(4)] have b: "current ?t2 = Some backslash" .
  have "t_text (advance ?t2) = pre @ [q] @ concat (map written items) @ [backslash]"
    "t_position (advance ?t2) = length (pre @ [q] @ concat (map written items) @ [backslash])"
    using r(3,4) by (simp_all add: advance_text advance_position)
  then have e: "current (advance ?t2) = None" by (rule current_at_end)
  have nq: "Some backslash \<noteq> Some q" using quote_chars(3) [OF q] by simp
  have "readString_loop (Some q) ?t2 (map decoded items) = (map decoded items, advance ?t2)"
    using b nq e by (rule readString_loop_escape_end)
  with r(1,2) e have "readString t = (map decoded items, advance ?t2)"
    by (simp add: readString_def Let_def)
  with nextToken_string [OF r(1) q] have n1: "nextToken t = (?tok, advance ?t2)" by simp
  have n2: "nextToken (advance ?t2) =
        (\<lparr>tk_type = EOF, tk_value = Null, tk_line = t_line (advance ?t2),
           tk_column = t_column (advance ?t2)\<rparr>, advance ?t2)"
    using e by (rule nextToken_at_end)
  have "tokenize_loop t tokens = tokenize_loop (advance ?t2) (tokens @ [?tok])"
    by (rule tokenize_loop_step [OF n1]) simp
  also have "\<dots> = (tokens @ [?tok]) @ [\<lparr>tk_type = EOF, tk_value = Null, tk_line = t_line (advance ?t2),
           tk_column = t_column (advance ?t2)\<rparr>]"
    by (rule tokenize_loop_EOF [OF n2]) simp
  finally show ?thesis by simp
qed

theorem trailing_backslash_dropped_witness:
  "\<exists>l c. tokenize [squote, 0x61, backslash] =
     [\<lparr>tk_type = STRING, tk_value = Str [0x61], tk_line = 1, tk_column = 1\<rparr>,
      \<lparr>tk_type = EOF, tk_value = Null, tk_line = l, tk_column = c\<rparr>]"
proof -
  let ?t = "SysMLTokenizer [squote, 0x61, backslash]"
  let ?items = "[Plain 0x61]"
  have 1: "t_text ?t = [] @ [squote] @ concat (map written ?items) @ [backslash]"
    by (simp add: SysMLTokenizer_def)
  have 2: "t_position ?t = length ([] :: jsstring)" by (simp add: SysMLTokenizer_def)
  have 3: "squote = dquote \<or> squote = squote" by simp
  have 4: "list_all (plain_ok squote) ?items"
    by (simp add: squote_def backslash_def)
  from trailing_backslash_dropped [OF 1 2 3 4, of "[]"] show ?thesis
    by (simp add: tokenize_def SysMLTokenizer_def)
qed

section \<open>A further property of the parser\<close>

text \<open>
  Whenever \<^verbatim>\<open>parseElement\<close> returns, the cursor is where it was or further: no rule
  moves it back, so no token is read again once the cursor has passed it. (It may stay
  where it was: this is what happens in the two texts of claims C2 and C3.)
\<close>

theorem cursor_never_moves_back:
  "parseElement n tokens p = Some (Inr (element, p')) \<Longrightarrow> p \<le> p'"
  using parseElement_parseBody_ge by blast

text \<open>The connection of \<^verbatim>\<open>connection c : a B.c;\<close> moves the cursor from 0 to 5.\<close>

theorem cursor_never_moves_back_witness:
  "parseElement 3 (tokenize (js ''connection c : a B.c;'')) 0 =
     Some (Inr (Some (ASTNode ''connection''
        [(''name'', Str (js ''c'')), (''from'', Str (js ''a'')), (''to'', Str (js ''B''))] []), 5))
   \<and> (0::nat) \<le> 5"
proof -
  have 1: "parseElement 3 (tokenize (js ''connection c : a B.c;'')) 0 =
     Some (Inr (Some (ASTNode ''connection''
        [(''name'', Str (js ''c'')), (''from'', Str (js ''a'')), (''to'', Str (js ''B''))] []), 5))"
    unfolding tokens_connection by code_simp
  from cursor_never_moves_back [OF 1] 1 show ?thesis by simp
qed

end
